theory Spec2Isabelle
  imports Main "HOL-Library.Word"
begin

unbundle bit_operations_syntax

section \<open>The I2S DMA output driver (i2s\_freertos.c) as HOL functions\<close>

text \<open>
  The driver keeps a ring of DMA sample buffers, a FreeRTOS queue of buffers that the
  hardware has finished with, an interrupt handler that recycles finished buffers, a
  producer routine that fills the current buffer, and a search for the clock dividers
  closest to a requested sample rate. Each C function becomes one HOL function of the
  same name. Global variables become the fields of one state record; a function that
  changes them takes the state and returns the new one.

  C \<open>int\<close> and \<open>long\<close> (both 32 bits on the ESP32) are HOL integers; where a signed
  operation can leave the 32-bit range the two's-complement wrap-around \<open>s32\<close> is
  written out. \<open>uint32_t\<close> and \<open>uint8_t\<close> are machine words.
\<close>

type_synonym u8 = "8 word"
type_synonym u32 = "32 word"

definition s32 :: "int \<Rightarrow> int" where
  "s32 x = (x + 2147483648) mod 4294967296 - 2147483648"

subsection \<open>Constants of the headers\<close>

text \<open>
  The header \<open>i2s_freertos.h\<close> and the SoC headers are not part of the sources at hand,
  so what the driver takes from them is a parameter of the model: the number of DMA
  buffers, the number of 32-bit frames in each, the default sample rate, the bit of the
  interrupt status register that reports a finished output buffer, and the width of the
  \<open>size\<close> and \<open>length\<close> bit-fields of the descriptor type \<open>lldesc_t\<close>.
\<close>

record hdr =
  I2SDMABUFCNT :: nat
  I2SDMABUFLEN :: nat
  I2S_DEFAULT_SAMPLE_RATE :: int
  I2S_OUT_EOF_INT_ST :: u32
  lldesc_len_bits :: nat

subsection \<open>The clock divider search (i2sSetRate, lines 236 to 284)\<close>

definition BASEFREQ :: int where
  "BASEFREQ = 160000000"

text \<open>
  The macro \<open>ABS(x) (((x)>0)?(x):(-(x)))\<close>. Negating the least 32-bit integer
  overflows; the wrap-around is written out.
\<close>

definition ABS :: "int \<Rightarrow> int" where
  "ABS x = (if x > 0 then x else s32 (- x))"

record divs =
  bestclkmdiv :: int
  bestbckdiv :: int
  bestbits :: int
  bestfreq :: int

text \<open>
  The body of the innermost loop (lines 260 to 266). All three dividers are positive
  there, so the truncating division of C is \<open>div\<close>, and the product is at most
  \<open>63 * 63 * 19 * 2\<close>, far from overflow. The two subtractions are 32-bit
  subtractions: \<open>rate - bestfreq\<close> leaves the range of \<open>int\<close> when \<open>bestfreq\<close> is still
  \<open>-10000\<close> and \<open>rate\<close> is within 10000 of the largest \<open>int\<close>.
\<close>

definition try_divs :: "int \<Rightarrow> int \<Rightarrow> int \<Rightarrow> int \<Rightarrow> divs \<Rightarrow> divs" where
  "try_divs rate bckdiv clkmdiv bits b =
     (let tstfreq = BASEFREQ div (bckdiv * clkmdiv * bits * 2) in
      if ABS (s32 (rate - tstfreq)) < ABS (s32 (rate - bestfreq b))
      then \<lparr>bestclkmdiv = clkmdiv, bestbckdiv = bckdiv, bestbits = bits, bestfreq = tstfreq\<rparr>
      else b)"

text \<open>
  The three nested loops (lines 257 to 269), each a fold over the values its counter
  takes, in ascending order. The result is the record of the four \<open>best\<close> variables,
  which the function then prints and writes into the sample-rate and clock registers.
\<close>

definition i2sSetRate :: "int \<Rightarrow> int \<Rightarrow> divs" where
  "i2sSetRate rate enaWordlenFuzzing =
     fold (\<lambda>bckdiv.
       fold (\<lambda>clkmdiv.
         fold (\<lambda>bits. try_divs rate bckdiv clkmdiv bits)
           [16..(if enaWordlenFuzzing \<noteq> 0 then 20 else 17) - 1])
         [5..64 - 1])
       [2..64 - 1]
       \<lparr>bestclkmdiv = 5, bestbckdiv = 2, bestbits = 16, bestfreq = - 10000\<rparr>"

text \<open>The frequency that line 272 prints for the chosen dividers.\<close>

definition achieved :: "divs \<Rightarrow> int" where
  "achieved b = BASEFREQ div (bestbckdiv b * bestclkmdiv b * bestbits b * 2)"

subsection \<open>Pointers, memory and failure\<close>

text \<open>
  A pointer is null, the address of the first byte of a sample buffer (the k-th block
  that \<open>calloc\<close> returned), or the address of an element of the descriptor array
  \<open>i2sBufDesc\<close>. The heap is the list of the blocks allocated so far, each a list of
  bytes. A store through a null pointer or outside a block does not return a state:
  C gives such a store no meaning, and the result \<open>Fault\<close> records that the run has
  reached one. It is not an error path of the driver, which tests no result of any
  call; what the machine does at such a store (the ESP32 raises an exception for
  address 0) is outside the code. A call that waits for the queue is the result
  \<open>Blocked\<close>.
\<close>

datatype ptr = NULL | BufPtr nat | DescPtr nat

datatype fault = NullStore | OutOfBounds | BadDescriptor

datatype 'a result = Done 'a | Blocked | Fault fault

definition rbind :: "'a result \<Rightarrow> ('a \<Rightarrow> 'b result) \<Rightarrow> 'b result" where
  "rbind r f = (case r of Done x \<Rightarrow> f x | Blocked \<Rightarrow> Blocked | Fault e \<Rightarrow> Fault e)"

text \<open>A counting loop whose body may fail: the first failure ends it.\<close>

fun for_loop :: "nat list \<Rightarrow> (nat \<Rightarrow> 's \<Rightarrow> 's result) \<Rightarrow> 's \<Rightarrow> 's result" where
  "for_loop [] body s = Done s"
| "for_loop (n # ns) body s = rbind (body n s) (for_loop ns body)"

text \<open>
  Modelled from the spec: \<open>calloc\<close> of the C library, which is not part of the
  sources. It returns a fresh block of \<open>nmemb * sz\<close> zero bytes, or the null pointer
  when the allocation fails; whether it fails is an input of the model.
\<close>

definition calloc :: "bool \<Rightarrow> nat \<Rightarrow> nat \<Rightarrow> u8 list list \<Rightarrow> ptr \<times> u8 list list" where
  "calloc ok nmemb sz hp =
     (if ok then (BufPtr (length hp), hp @ [replicate (nmemb * sz) 0]) else (NULL, hp))"

text \<open>The byte store \<open>p[x] = v\<close> through a \<open>uint8_t\<close> pointer.\<close>

definition store8 :: "u8 list list \<Rightarrow> ptr \<Rightarrow> nat \<Rightarrow> u8 \<Rightarrow> u8 list list result" where
  "store8 hp p x v =
     (case p of
        NULL \<Rightarrow> Fault NullStore
      | BufPtr k \<Rightarrow>
          if k < length hp \<and> x < length (hp ! k)
          then Done (hp[k := (hp ! k)[x := v]])
          else Fault OutOfBounds
      | DescPtr d \<Rightarrow> Fault OutOfBounds)"

text \<open>
  The store \<open>p[i] = v\<close> through an \<open>unsigned int\<close> pointer: four bytes at byte offset
  \<open>4 * i\<close>, least significant first.
\<close>

definition le_bytes :: "u32 \<Rightarrow> u8 list" where
  "le_bytes v = [ucast v, ucast (drop_bit 8 v), ucast (drop_bit 16 v), ucast (drop_bit 24 v)]"

definition le_word :: "u8 list \<Rightarrow> u32" where
  "le_word bs = ucast (bs ! 0) OR push_bit 8 (ucast (bs ! 1)) OR push_bit 16 (ucast (bs ! 2))
       OR push_bit 24 (ucast (bs ! 3))"

definition store32 :: "u8 list list \<Rightarrow> ptr \<Rightarrow> int \<Rightarrow> u32 \<Rightarrow> u8 list list result" where
  "store32 hp p i v =
     (case p of
        NULL \<Rightarrow> Fault NullStore
      | BufPtr k \<Rightarrow>
          if 0 \<le> i \<and> k < length hp \<and> 4 * nat i + 4 \<le> length (hp ! k)
          then Done (hp[k := take (4 * nat i) (hp ! k) @ le_bytes v @ drop (4 * nat i + 4) (hp ! k)])
          else Fault OutOfBounds
      | DescPtr d \<Rightarrow> Fault OutOfBounds)"

text \<open>The frame at index \<open>i\<close> of block \<open>k\<close>, as the DMA engine reads it.\<close>

definition load32 :: "u8 list list \<Rightarrow> nat \<Rightarrow> nat \<Rightarrow> u32" where
  "load32 hp k i = le_word (take 4 (drop (4 * i) (hp ! k)))"

subsection \<open>The queue of empty buffers\<close>

text \<open>
  Modelled from the spec: the FreeRTOS queue, which is not part of the sources. It is
  a first-in first-out list of buffer pointers that holds at most \<open>uxLength\<close> items.
  The interrupt-side calls never wait: receiving from an empty queue and sending to a
  full one leave the queue as it is. \<open>xQueueReceive\<close> with \<open>portMAX_DELAY\<close> waits while
  the queue is empty.
\<close>

record queue =
  items :: "ptr list"
  uxLength :: nat

definition xQueueCreate :: "nat \<Rightarrow> queue" where
  "xQueueCreate n = \<lparr>items = [], uxLength = n\<rparr>"

definition xQueueIsQueueFullFromISR :: "queue \<Rightarrow> bool" where
  "xQueueIsQueueFullFromISR q = (length (items q) = uxLength q)"

definition xQueueReceiveFromISR :: "queue \<Rightarrow> ptr option \<times> queue" where
  "xQueueReceiveFromISR q =
     (case items q of [] \<Rightarrow> (None, q) | t # ts \<Rightarrow> (Some t, q\<lparr>items := ts\<rparr>))"

definition xQueueSendFromISR :: "queue \<Rightarrow> ptr \<Rightarrow> queue" where
  "xQueueSendFromISR q t = (if length (items q) < uxLength q then q\<lparr>items := items q @ [t]\<rparr> else q)"

definition xQueueReceive :: "queue \<Rightarrow> (ptr \<times> queue) result" where
  "xQueueReceive q = (case items q of [] \<Rightarrow> Blocked | t # ts \<Rightarrow> Done (t, q\<lparr>items := ts\<rparr>))"

subsection \<open>Descriptors and the driver's state\<close>

text \<open>
  The fields of \<open>lldesc_t\<close> that the driver sets. \<open>size\<close>, \<open>length\<close>, \<open>offset\<close> and
  \<open>empty\<close> carry a suffix, since HOL has constants of these names. \<open>empty_d\<close> holds
  the address of the next descriptor.
\<close>

record lldesc =
  size_d :: nat
  length_d :: nat
  offset_d :: nat
  sosf :: nat
  eof :: nat
  owner :: nat
  buf :: ptr
  empty_d :: ptr

definition zero_desc :: lldesc where
  "zero_desc = \<lparr>size_d = 0, length_d = 0, offset_d = 0, sosf = 0, eof = 0, owner = 0,
     buf = NULL, empty_d = NULL\<rparr>"

text \<open>
  The static variables of the file, and the peripheral registers that the driver writes
  and a property reads: the values written to the interrupt clear register (latest
  last), the address fields and start bits of the two link registers, the transmit
  start bit, and the dividers written by \<open>i2sSetRate\<close>. Reset sequences, pin routing
  and FIFO configuration change none of these and are left out.
\<close>

record i2s_state =
  heap :: "u8 list list"
  i2sBuf :: "ptr list"
  i2sBufDesc :: "lldesc list"
  dmaQueue :: queue
  underrunCnt :: int
  currDMABuff :: ptr
  currDMABuffPos :: int
  I2S_INT_CLR_REG :: "u32 list"
  I2S_OUTLINK_ADDR :: ptr
  I2S_INLINK_ADDR :: ptr
  I2S_OUTLINK_START :: bool
  I2S_TX_START :: bool
  rate_conf :: divs

text \<open>
  What the hardware presents to the interrupt handler: the interrupt status register
  and the address of the descriptor whose buffer was sent last.
\<close>

record hw_in =
  I2S_INT_ST_REG :: u32
  I2S_OUT_EOF_DES_ADDR_REG :: ptr

subsection \<open>The interrupt handler (i2s\_isr, lines 81 to 111)\<close>

text \<open>
  Reading \<open>finishedDesc->buf\<close> needs the register to hold the address of a descriptor
  of the array. The request for a context switch at the end of the handler concerns
  the scheduler only and is left out.
\<close>

definition i2s_isr :: "hdr \<Rightarrow> hw_in \<Rightarrow> i2s_state \<Rightarrow> i2s_state result" where
  "i2s_isr h hw s =
     (let slc_intr_status = I2S_INT_ST_REG hw in
      if slc_intr_status = 0 then Done s
      else
        let s1 = s\<lparr>I2S_INT_CLR_REG := I2S_INT_CLR_REG s @ [0xffffffff]\<rparr> in
        if slc_intr_status AND I2S_OUT_EOF_INT_ST h \<noteq> 0 then
          (case I2S_OUT_EOF_DES_ADDR_REG hw of
             DescPtr d \<Rightarrow>
               if d < length (i2sBufDesc s1) then
                 let s2 = (if xQueueIsQueueFullFromISR (dmaQueue s1)
                           then s1\<lparr>underrunCnt := s32 (underrunCnt s1 + 1),
                                  dmaQueue := snd (xQueueReceiveFromISR (dmaQueue s1))\<rparr>
                           else s1)
                 in Done (s2\<lparr>dmaQueue :=
                      xQueueSendFromISR (dmaQueue s2) (buf (i2sBufDesc s2 ! d))\<rparr>)
               else Fault BadDescriptor
           | NULL \<Rightarrow> Fault BadDescriptor
           | BufPtr k \<Rightarrow> Fault BadDescriptor)
        else Done s1)"

subsection \<open>Initialisation (i2sInit, lines 115 to 233)\<close>

text \<open>
  One round of the buffer loop (lines 122 to 130): allocate, then clear the first
  \<open>I2SDMABUFLEN\<close> bytes through the \<open>uint8_t\<close> pointer just stored in \<open>i2sBuf[y]\<close>.
\<close>

definition alloc_buffer ::
  "hdr \<Rightarrow> (nat \<Rightarrow> bool) \<Rightarrow> nat \<Rightarrow> u8 list list \<times> ptr list \<Rightarrow> (u8 list list \<times> ptr list) result" where
  "alloc_buffer h alloc_ok y hb =
     (case hb of (hp, bufs) \<Rightarrow>
        (case calloc (alloc_ok y) (I2SDMABUFLEN h) 4 hp of (p, hp1) \<Rightarrow>
           let bufs1 = bufs[y := p] in
           rbind (for_loop [0..<I2SDMABUFLEN h] (\<lambda>x hp2. store8 hp2 (bufs1 ! y) x 0) hp1)
             (\<lambda>hp3. Done (hp3, bufs1))))"

text \<open>
  One round of the descriptor loop (lines 152 to 161). A value stored in the \<open>size\<close>
  or \<open>length\<close> bit-field is cut to the width of the field.
\<close>

definition init_desc :: "hdr \<Rightarrow> ptr list \<Rightarrow> nat \<Rightarrow> lldesc list \<Rightarrow> lldesc list" where
  "init_desc h bufs x descs =
     descs[x := \<lparr>size_d = (I2SDMABUFLEN h * 4) mod 2 ^ lldesc_len_bits h,
                 length_d = (I2SDMABUFLEN h * 4) mod 2 ^ lldesc_len_bits h,
                 offset_d = 0, sosf = 0, eof = 1, owner = 1,
                 buf = bufs ! x,
                 empty_d = (if int x < int (I2SDMABUFCNT h) - 1 then DescPtr (x + 1)
                            else DescPtr 0)\<rparr>]"

text \<open>
  The whole of \<open>i2sInit\<close>, called once after the program starts. The arrays start as
  C initialises static storage (null pointers, zero descriptors), and the producer's
  two variables have the initial values of lines 287 and 289; \<open>alloc_ok y\<close> says
  whether the allocation of buffer \<open>y\<close> succeeds. The queue is created for one token
  less than there are buffers (line 178). Line 225 sets the default sample rate, line
  229 writes all ones to the interrupt clear register, lines 231 and 232 set the two
  start bits.
\<close>

definition i2sInit :: "hdr \<Rightarrow> (nat \<Rightarrow> bool) \<Rightarrow> i2s_state result" where
  "i2sInit h alloc_ok =
     rbind (for_loop [0..<I2SDMABUFCNT h] (alloc_buffer h alloc_ok)
              ([], replicate (I2SDMABUFCNT h) NULL))
       (\<lambda>(hp, bufs).
          Done \<lparr>heap = hp,
                i2sBuf = bufs,
                i2sBufDesc = fold (init_desc h bufs) [0..<I2SDMABUFCNT h]
                               (replicate (I2SDMABUFCNT h) zero_desc),
                dmaQueue = xQueueCreate (I2SDMABUFCNT h - 1),
                underrunCnt = 0,
                currDMABuff = NULL,
                currDMABuffPos = 0,
                I2S_INT_CLR_REG = [0xFFFFFFFF],
                I2S_OUTLINK_ADDR = DescPtr 0,
                I2S_INLINK_ADDR = DescPtr 1,
                I2S_OUTLINK_START = True,
                I2S_TX_START = True,
                rate_conf = i2sSetRate (I2S_DEFAULT_SAMPLE_RATE h) 0\<rparr>)"

subsection \<open>The producer (i2sPushSample, lines 286 to 303)\<close>

definition i2sPushSample :: "hdr \<Rightarrow> u32 \<Rightarrow> i2s_state \<Rightarrow> i2s_state result" where
  "i2sPushSample h sample s =
     rbind (if currDMABuffPos s = int (I2SDMABUFLEN h) \<or> currDMABuff s = NULL
            then rbind (xQueueReceive (dmaQueue s))
                   (\<lambda>(t, q). Done (s\<lparr>dmaQueue := q, currDMABuff := t, currDMABuffPos := 0\<rparr>))
            else Done s)
       (\<lambda>s1. rbind (store32 (heap s1) (currDMABuff s1) (currDMABuffPos s1) sample)
                (\<lambda>hp. Done (s1\<lparr>heap := hp, currDMABuffPos := currDMABuffPos s1 + 1\<rparr>)))"

definition i2sGetUnderrunCnt :: "i2s_state \<Rightarrow> int" where
  "i2sGetUnderrunCnt s = underrunCnt s"

text \<open>A run of pushes, one sample after the other.\<close>

fun i2sPushSamples :: "hdr \<Rightarrow> u32 list \<Rightarrow> i2s_state \<Rightarrow> i2s_state result" where
  "i2sPushSamples h [] s = Done s"
| "i2sPushSamples h (x # xs) s = rbind (i2sPushSample h x s) (i2sPushSamples h xs)"

section \<open>Notions used to state and prove the properties\<close>

subsection \<open>The search space of the dividers\<close>

type_synonym cand = "int \<times> int \<times> int"

definition bits_limit :: "int \<Rightarrow> int" where
  "bits_limit enaWordlenFuzzing = (if enaWordlenFuzzing \<noteq> 0 then 20 else 17)"

definition in_space :: "int \<Rightarrow> cand \<Rightarrow> bool" where
  "in_space fz c = (case c of (bckdiv, clkmdiv, bits) \<Rightarrow>
     2 \<le> bckdiv \<and> bckdiv < 64 \<and> 5 \<le> clkmdiv \<and> clkmdiv < 64 \<and> 16 \<le> bits \<and> bits < bits_limit fz)"

definition freq_of :: "cand \<Rightarrow> int" where
  "freq_of c = (case c of (bckdiv, clkmdiv, bits) \<Rightarrow> BASEFREQ div (bckdiv * clkmdiv * bits * 2))"

definition err :: "int \<Rightarrow> cand \<Rightarrow> int" where
  "err rate c = \<bar>rate - freq_of c\<bar>"

text \<open>The dividers that a search result holds, in the order (bck, main clock, bits).\<close>

definition chosen :: "divs \<Rightarrow> cand" where
  "chosen b = (bestbckdiv b, bestclkmdiv b, bestbits b)"

text \<open>
  The order in which the loops visit the candidates: ascending bck divider, then
  ascending main clock divider, then ascending bits.
\<close>

definition before :: "cand \<Rightarrow> cand \<Rightarrow> bool" where
  "before c d = (case (c, d) of ((b, m, n), (b', m', n')) \<Rightarrow>
     b < b' \<or> (b = b' \<and> (m < m' \<or> (m = m' \<and> n < n'))))"

text \<open>
  For the proofs: the list of candidates in the order of the loops, the record that the
  loop body stores for a candidate, the loop body as a function of the candidate, the
  error of the current best as line 261 computes it, and the best before the loops.
\<close>

definition cands :: "int \<Rightarrow> cand list" where
  "cands fz = concat (map (\<lambda>b. concat (map (\<lambda>m. map (\<lambda>n. (b, m, n))
     [16..bits_limit fz - 1]) [5..64 - 1])) [2..64 - 1])"

definition mk :: "cand \<Rightarrow> divs" where
  "mk c = (case c of (b, m, n) \<Rightarrow>
     \<lparr>bestclkmdiv = m, bestbckdiv = b, bestbits = n, bestfreq = freq_of c\<rparr>)"

definition step :: "int \<Rightarrow> cand \<Rightarrow> divs \<Rightarrow> divs" where
  "step rate c = (case c of (b, m, n) \<Rightarrow> try_divs rate b m n)"

definition cur :: "int \<Rightarrow> divs \<Rightarrow> int" where
  "cur rate b = ABS (s32 (rate - bestfreq b))"

definition init_divs :: divs where
  "init_divs = \<lparr>bestclkmdiv = 5, bestbckdiv = 2, bestbits = 16, bestfreq = - 10000\<rparr>"

subsection \<open>Runs of the driver\<close>

text \<open>
  The producer thread and the interrupt handler share the queue only, through queue
  calls that FreeRTOS makes atomic, so a run of the driver after initialisation is a
  sequence of completed calls: a push of a sample, or an interrupt with the register
  values the hardware shows. A push that has to wait has changed nothing when it starts
  to wait; the run that wakes it is the run with the interrupt placed before the push.
\<close>

datatype event = Push u32 | Irq hw_in

fun run :: "hdr \<Rightarrow> event list \<Rightarrow> i2s_state \<Rightarrow> i2s_state result" where
  "run h [] s = Done s"
| "run h (Push x # evs) s = rbind (i2sPushSample h x s) (run h evs)"
| "run h (Irq hw # evs) s = rbind (i2s_isr h hw s) (run h evs)"

definition final :: "'a result \<Rightarrow> 'a option" where
  "final r = (case r of Done s \<Rightarrow> Some s | Blocked \<Rightarrow> None | Fault f \<Rightarrow> None)"

subsection \<open>The state after initialisation\<close>

text \<open>
  The descriptor that the loop of lines 152 to 161 leaves at index \<open>x\<close>, and the state
  that \<open>i2sInit\<close> returns when every allocation succeeds, both in closed form.
\<close>

definition init_desc_at :: "hdr \<Rightarrow> ptr list \<Rightarrow> nat \<Rightarrow> lldesc" where
  "init_desc_at h bufs x =
     \<lparr>size_d = (I2SDMABUFLEN h * 4) mod 2 ^ lldesc_len_bits h,
      length_d = (I2SDMABUFLEN h * 4) mod 2 ^ lldesc_len_bits h,
      offset_d = 0, sosf = 0, eof = 1, owner = 1,
      buf = bufs ! x,
      empty_d = DescPtr (Suc x mod I2SDMABUFCNT h)\<rparr>"

definition init_state :: "hdr \<Rightarrow> i2s_state" where
  "init_state h =
     \<lparr>heap = replicate (I2SDMABUFCNT h) (replicate (I2SDMABUFLEN h * 4) 0),
      i2sBuf = map BufPtr [0..<I2SDMABUFCNT h],
      i2sBufDesc = map (init_desc_at h (map BufPtr [0..<I2SDMABUFCNT h])) [0..<I2SDMABUFCNT h],
      dmaQueue = xQueueCreate (I2SDMABUFCNT h - 1),
      underrunCnt = 0,
      currDMABuff = NULL,
      currDMABuffPos = 0,
      I2S_INT_CLR_REG = [0xFFFFFFFF],
      I2S_OUTLINK_ADDR = DescPtr 0,
      I2S_INLINK_ADDR = DescPtr 1,
      I2S_OUTLINK_START = True,
      I2S_TX_START = True,
      rate_conf = i2sSetRate (I2S_DEFAULT_SAMPLE_RATE h) 0\<rparr>"

text \<open>
  The walk of the DMA engine along the chain: the successor of a descriptor is the
  descriptor its \<open>empty\<close> field points to.
\<close>

definition desc_next :: "lldesc list \<Rightarrow> ptr \<Rightarrow> ptr" where
  "desc_next ds p =
     (case p of DescPtr i \<Rightarrow> if i < length ds then empty_d (ds ! i) else NULL
      | NULL \<Rightarrow> NULL | BufPtr k \<Rightarrow> NULL)"

fun follow :: "lldesc list \<Rightarrow> nat \<Rightarrow> ptr \<Rightarrow> ptr" where
  "follow ds 0 p = p"
| "follow ds (Suc k) p = desc_next ds (follow ds k p)"

subsection \<open>The producer's view\<close>

text \<open>
  The condition of line 297, under which a push takes a new buffer from the queue; the
  pointers to whole sample buffers; and the facts about the state that every run keeps:
  the write offset is between zero and the buffer length, the current buffer, the
  queued tokens and the descriptors' buffers are whole sample buffers, there is one
  descriptor for each buffer, and the queue holds at most as many tokens as it was
  created for, one less than there are buffers.
\<close>

definition need_buffer :: "hdr \<Rightarrow> i2s_state \<Rightarrow> bool" where
  "need_buffer h s = (currDMABuffPos s = int (I2SDMABUFLEN h) \<or> currDMABuff s = NULL)"

definition valid_buf :: "hdr \<Rightarrow> u8 list list \<Rightarrow> ptr \<Rightarrow> bool" where
  "valid_buf h hp p =
     (case p of BufPtr k \<Rightarrow> k < length hp \<and> length (hp ! k) = 4 * I2SDMABUFLEN h
      | NULL \<Rightarrow> False | DescPtr d \<Rightarrow> False)"

definition inv :: "hdr \<Rightarrow> i2s_state \<Rightarrow> bool" where
  "inv h s =
     (0 \<le> currDMABuffPos s \<and> currDMABuffPos s \<le> int (I2SDMABUFLEN h) \<and>
      (currDMABuff s = NULL \<or> valid_buf h (heap s) (currDMABuff s)) \<and>
      list_all (valid_buf h (heap s)) (items (dmaQueue s)) \<and>
      list_all (\<lambda>d. valid_buf h (heap s) (buf d)) (i2sBufDesc s) \<and>
      length (i2sBufDesc s) = I2SDMABUFCNT h \<and>
      uxLength (dmaQueue s) = I2SDMABUFCNT h - 1 \<and>
      length (items (dmaQueue s)) \<le> uxLength (dmaQueue s))"

text \<open>
  The tokens taken from the queue between two states with no interrupt in between:
  each call of \<open>xQueueReceive\<close> that returns removes exactly one.
\<close>

definition dequeues :: "i2s_state \<Rightarrow> i2s_state \<Rightarrow> nat" where
  "dequeues s s' = length (items (dmaQueue s)) - length (items (dmaQueue s'))"

subsection \<open>An example configuration\<close>

text \<open>
  Four buffers of 128 frames, as in the end-to-end scenario of the specification; the
  finished-buffer bit is bit 12 and the descriptor length fields have 12 bits. A
  completion interrupt for descriptor \<open>d\<close>, and the states after the first interrupt,
  after the first two, after a first and a second push that follow one interrupt, and
  after three interrupts (for descriptors 1, 2 and 3) that fill the queue. The
  configuration \<open>h0\<close> differs in the buffer length only, which is zero.
\<close>

definition h4 :: hdr where
  "h4 = \<lparr>I2SDMABUFCNT = 4, I2SDMABUFLEN = 128, I2S_DEFAULT_SAMPLE_RATE = 44100,
          I2S_OUT_EOF_INT_ST = 0x1000, lldesc_len_bits = 12\<rparr>"


definition eof_irq :: "nat \<Rightarrow> hw_in" where
  "eof_irq d = \<lparr>I2S_INT_ST_REG = 0x1000, I2S_OUT_EOF_DES_ADDR_REG = DescPtr d\<rparr>"

definition after_irq :: i2s_state where
  "after_irq = (init_state h4)
     \<lparr>dmaQueue := \<lparr>items = [BufPtr 0], uxLength = 3\<rparr>,
      I2S_INT_CLR_REG := [0xFFFFFFFF, 0xFFFFFFFF]\<rparr>"

definition after_two_irqs :: i2s_state where
  "after_two_irqs = (init_state h4)
     \<lparr>dmaQueue := \<lparr>items = [BufPtr 0, BufPtr 1], uxLength = 3\<rparr>,
      I2S_INT_CLR_REG := [0xFFFFFFFF, 0xFFFFFFFF, 0xFFFFFFFF]\<rparr>"

definition after_push :: i2s_state where
  "after_push = after_irq
     \<lparr>heap := (heap after_irq)[0 := le_bytes 7 @ replicate 508 0],
      dmaQueue := \<lparr>items = [], uxLength = 3\<rparr>,
      currDMABuff := BufPtr 0,
      currDMABuffPos := 1\<rparr>"

definition after_push2 :: i2s_state where
  "after_push2 = after_push
     \<lparr>heap := (heap after_push)[0 := le_bytes 7 @ le_bytes 9 @ replicate 504 0],
      currDMABuffPos := 2\<rparr>"

definition queue_full :: i2s_state where
  "queue_full = (init_state h4)
     \<lparr>dmaQueue := \<lparr>items = [BufPtr 1, BufPtr 2, BufPtr 3], uxLength = 3\<rparr>,
      I2S_INT_CLR_REG := [0xFFFFFFFF, 0xFFFFFFFF, 0xFFFFFFFF, 0xFFFFFFFF]\<rparr>"

section \<open>The clock divider search finds the first candidate of least error\<close>

lemma s32_id: "- 2147483648 \<le> x \<Longrightarrow> x < 2147483648 \<Longrightarrow> s32 x = x"
  by (simp add: s32_def)

lemma fold_concat_eq: "fold f (concat xss) = fold (fold f) xss"
  by (induction xss) (simp_all add: fun_eq_iff)

lemma i2sSetRate_cands: "i2sSetRate rate fz = fold (step rate) (cands fz) init_divs"
  by (simp only: i2sSetRate_def cands_def init_divs_def bits_limit_def fold_concat_eq fold_map
       comp_def step_def prod.case)

lemma set_triples:
  "(b, m, n) \<in> set (concat (map (\<lambda>b. concat (map (\<lambda>m. map (\<lambda>n. (b, m, n)) ns) ms)) bs))
     \<longleftrightarrow> b \<in> set bs \<and> m \<in> set ms \<and> n \<in> set ns"
  by force

lemma set_cands: "c \<in> set (cands fz) \<longleftrightarrow> in_space fz c"
proof (cases c)
  case (fields b m n)
  have "(b, m, n) \<in> set (cands fz) \<longleftrightarrow>
        b \<in> {2..64 - 1} \<and> m \<in> {5..64 - 1} \<and> n \<in> {16..bits_limit fz - 1}"
    unfolding cands_def set_triples set_upto ..
  then show ?thesis by (simp add: fields in_space_def) linarith
qed

lemma prod_bounds:
  assumes "2 \<le> b" "b \<le> 63" "5 \<le> m" "m \<le> 63" "16 \<le> n" "n \<le> (19::int)"
  shows "320 \<le> b * m * n * 2" "b * m * n * 2 \<le> 150822"
proof -
  have "2 * 5 \<le> b * m" using assms by (intro mult_mono) auto
  then have "10 * 16 \<le> b * m * n" using assms by (intro mult_mono) auto
  then show "320 \<le> b * m * n * 2" by simp
  have "b * m \<le> 63 * 63" using assms by (intro mult_mono) auto
  moreover have "0 \<le> b * m" using assms by simp
  ultimately have "b * m * n \<le> 63 * 63 * 19" using assms by (intro mult_mono) auto
  then show "b * m * n * 2 \<le> 150822" by simp
qed

lemma freq_bounds:
  assumes "in_space fz c"
  shows "1060 \<le> freq_of c" "freq_of c \<le> 500000"
proof -
  obtain b m n where c: "c = (b, m, n)" by (cases c)
  have r: "2 \<le> b" "b \<le> 63" "5 \<le> m" "m \<le> 63" "16 \<le> n" "n \<le> 19"
    using assms by (auto simp: c in_space_def bits_limit_def split: if_splits)
  let ?p = "b * m * n * 2"
  have p: "320 \<le> ?p" "?p \<le> 150822" using prod_bounds [OF r] by auto
  have "(160000000::int) div 150822 \<le> 160000000 div ?p"
    using p by (intro zdiv_mono2) auto
  then show "1060 \<le> freq_of c" by (simp add: c freq_of_def BASEFREQ_def)
  have "(160000000::int) div ?p \<le> 160000000 div 320"
    using p by (intro zdiv_mono2) auto
  then show "freq_of c \<le> 500000" by (simp add: c freq_of_def BASEFREQ_def)
qed

lemma ABS_exact:
  assumes "0 < rate" "rate < 2147483648" "1060 \<le> t" "t \<le> 500000"
  shows "ABS (s32 (rate - t)) = \<bar>rate - t\<bar>"
proof -
  have "s32 (rate - t) = rate - t" using assms by (intro s32_id) auto
  moreover have "s32 (- (rate - t)) = - (rate - t)" using assms by (intro s32_id) auto
  ultimately show ?thesis by (simp add: ABS_def)
qed

lemma cur_mk:
  assumes "0 < rate" "rate < 2147483648" "in_space fz c"
  shows "cur rate (mk c) = err rate c"
  using ABS_exact [OF assms(1,2) freq_bounds [OF assms(3)]]
  by (cases c) (simp add: cur_def mk_def err_def)

lemma step_eq:
  assumes "0 < rate" "rate < 2147483648" "in_space fz c"
  shows "step rate c b = (if err rate c < cur rate b then mk c else b)"
  using ABS_exact [OF assms(1,2) freq_bounds [OF assms(3)]]
  by (cases c) (simp add: step_def try_divs_def cur_def mk_def err_def freq_of_def Let_def)

lemma fold_step:
  assumes "0 < rate" "rate < 2147483648" "\<forall>c\<in>set xs. in_space fz c"
  shows "(fold (step rate) xs b = b \<and> (\<forall>c\<in>set xs. \<not> err rate c < cur rate b)) \<or>
         (\<exists>k<length xs. fold (step rate) xs b = mk (xs ! k) \<and> err rate (xs ! k) < cur rate b \<and>
            (\<forall>j<k. err rate (xs ! k) < err rate (xs ! j)) \<and>
            (\<forall>j<length xs. err rate (xs ! k) \<le> err rate (xs ! j)))"
  using assms(3)
proof (induction xs arbitrary: b)
  case Nil
  then show ?case by simp
next
  case (Cons c xs)
  have inc: "in_space fz c" and inxs: "\<forall>c\<in>set xs. in_space fz c" using Cons.prems by auto
  note st = step_eq [OF assms(1,2) inc]
  show ?case
  proof (cases "err rate c < cur rate b")
    case True
    then have f: "fold (step rate) (c # xs) b = fold (step rate) xs (mk c)" by (simp add: st)
    have cm: "cur rate (mk c) = err rate c" by (rule cur_mk [OF assms(1,2) inc])
    from Cons.IH [OF inxs, of "mk c"] show ?thesis
    proof (elim disjE conjE exE)
      assume a: "fold (step rate) xs (mk c) = mk c"
        and n: "\<forall>c'\<in>set xs. \<not> err rate c' < cur rate (mk c)"
      have "\<forall>j<length (c # xs). err rate ((c # xs) ! 0) \<le> err rate ((c # xs) ! j)"
      proof (intro allI impI)
        fix j assume "j < length (c # xs)"
        then show "err rate ((c # xs) ! 0) \<le> err rate ((c # xs) ! j)"
          using n cm by (cases j) (auto simp: not_less)
      qed
      then have "0 < length (c # xs) \<and> fold (step rate) (c # xs) b = mk ((c # xs) ! 0) \<and>
          err rate ((c # xs) ! 0) < cur rate b \<and>
          (\<forall>j<0. err rate ((c # xs) ! 0) < err rate ((c # xs) ! j)) \<and>
          (\<forall>j<length (c # xs). err rate ((c # xs) ! 0) \<le> err rate ((c # xs) ! j))"
        using f a True by simp
      then show ?thesis by blast
    next
      fix k
      assume k: "k < length xs" and a: "fold (step rate) xs (mk c) = mk (xs ! k)"
        and lt: "err rate (xs ! k) < cur rate (mk c)"
        and e: "\<forall>j<k. err rate (xs ! k) < err rate (xs ! j)"
        and l: "\<forall>j<length xs. err rate (xs ! k) \<le> err rate (xs ! j)"
      have 1: "\<forall>j<Suc k. err rate ((c # xs) ! Suc k) < err rate ((c # xs) ! j)"
      proof (intro allI impI)
        fix j assume "j < Suc k"
        then show "err rate ((c # xs) ! Suc k) < err rate ((c # xs) ! j)"
          using e lt cm by (cases j) auto
      qed
      have 2: "\<forall>j<length (c # xs). err rate ((c # xs) ! Suc k) \<le> err rate ((c # xs) ! j)"
      proof (intro allI impI)
        fix j assume "j < length (c # xs)"
        then show "err rate ((c # xs) ! Suc k) \<le> err rate ((c # xs) ! j)"
          using l lt cm by (cases j) auto
      qed
      have "Suc k < length (c # xs) \<and> fold (step rate) (c # xs) b = mk ((c # xs) ! Suc k) \<and>
          err rate ((c # xs) ! Suc k) < cur rate b"
        using k f a lt cm True by simp
      with 1 2 show ?thesis by blast
    qed
  next
    case False
    then have f: "fold (step rate) (c # xs) b = fold (step rate) xs b" by (simp add: st)
    from Cons.IH [OF inxs, of b] show ?thesis
    proof (elim disjE conjE exE)
      assume "fold (step rate) xs b = b" "\<forall>c'\<in>set xs. \<not> err rate c' < cur rate b"
      then show ?thesis using f False by simp
    next
      fix k
      assume k: "k < length xs" and a: "fold (step rate) xs b = mk (xs ! k)"
        and lt: "err rate (xs ! k) < cur rate b"
        and e: "\<forall>j<k. err rate (xs ! k) < err rate (xs ! j)"
        and l: "\<forall>j<length xs. err rate (xs ! k) \<le> err rate (xs ! j)"
      have 1: "\<forall>j<Suc k. err rate ((c # xs) ! Suc k) < err rate ((c # xs) ! j)"
      proof (intro allI impI)
        fix j assume "j < Suc k"
        then show "err rate ((c # xs) ! Suc k) < err rate ((c # xs) ! j)"
          using e lt False by (cases j) auto
      qed
      have 2: "\<forall>j<length (c # xs). err rate ((c # xs) ! Suc k) \<le> err rate ((c # xs) ! j)"
      proof (intro allI impI)
        fix j assume "j < length (c # xs)"
        then show "err rate ((c # xs) ! Suc k) \<le> err rate ((c # xs) ! j)"
          using l lt False by (cases j) auto
      qed
      have "Suc k < length (c # xs) \<and> fold (step rate) (c # xs) b = mk ((c # xs) ! Suc k) \<and>
          err rate ((c # xs) ! Suc k) < cur rate b"
        using k f a lt by simp
      with 1 2 show ?thesis by blast
    qed
  qed
qed


lemma sorted_wrt_concat_iff:
  "sorted_wrt P (concat xss) \<longleftrightarrow>
     (\<forall>xs\<in>set xss. sorted_wrt P xs) \<and>
     sorted_wrt (\<lambda>xs ys. \<forall>x\<in>set xs. \<forall>y\<in>set ys. P x y) xss"
  by (induction xss) (auto simp: sorted_wrt_append)

lemma sorted_triples:
  assumes "sorted_wrt (<) bs" "sorted_wrt (<) ms" "sorted_wrt (<) ns"
  shows "sorted_wrt before
     (concat (map (\<lambda>b. concat (map (\<lambda>m. map (\<lambda>n. (b, m, n)) ns) ms)) bs))"
proof -
  have inner: "sorted_wrt before (map (\<lambda>n. (b, m, n)) ns)" for b m
    using assms(3) by (simp add: sorted_wrt_map before_def)
  have mid: "sorted_wrt before (concat (map (\<lambda>m. map (\<lambda>n. (b, m, n)) ns) ms))" for b
    unfolding sorted_wrt_concat_iff sorted_wrt_map
    using inner by (auto simp: before_def intro: sorted_wrt_mono_rel [OF _ assms(2)])
  show ?thesis
    unfolding sorted_wrt_concat_iff sorted_wrt_map
  proof (intro conjI ballI)
    fix xs assume "xs \<in> set (map (\<lambda>b. concat (map (\<lambda>m. map (\<lambda>n. (b, m, n)) ns) ms)) bs)"
    then show "sorted_wrt before xs" using mid by auto
  next
    show "sorted_wrt (\<lambda>x y. \<forall>x\<in>set (concat (map (\<lambda>m. map (\<lambda>n. (x, m, n)) ns) ms)).
            \<forall>y\<in>set (concat (map (\<lambda>m. map (\<lambda>n. (y, m, n)) ns) ms)). before x y) bs"
    proof (rule sorted_wrt_mono_rel [OF _ assms(1)])
      fix b b' :: int assume "b < b'"
      then show "\<forall>x\<in>set (concat (map (\<lambda>m. map (\<lambda>n. (b, m, n)) ns) ms)).
            \<forall>y\<in>set (concat (map (\<lambda>m. map (\<lambda>n. (b', m, n)) ns) ms)). before x y"
        by (auto simp: before_def)
    qed
  qed
qed

lemma sorted_cands: "sorted_wrt before (cands fz)"
  unfolding cands_def by (intro sorted_triples sorted_wrt_upto)

lemma before_asym: "before c d \<Longrightarrow> \<not> before d c"
  by (cases c, cases d) (auto simp: before_def)

lemma before_irrefl: "\<not> before c c"
  by (cases c) (auto simp: before_def)

lemma cands_index:
  assumes "j < length (cands fz)" "k < length (cands fz)"
  shows "before (cands fz ! j) (cands fz ! k) \<longleftrightarrow> j < k"
proof
  assume b: "before (cands fz ! j) (cands fz ! k)"
  show "j < k"
  proof (rule ccontr)
    assume "\<not> j < k"
    then consider "j = k" | "k < j" by linarith
    then show False
    proof cases
      case 1 with b show False by (simp add: before_irrefl)
    next
      case 2
      then have "before (cands fz ! k) (cands fz ! j)"
        using sorted_wrt_nth_less [OF sorted_cands] assms by blast
      with b show False using before_asym by blast
    qed
  qed
next
  assume "j < k"
  then show "before (cands fz ! j) (cands fz ! k)"
    using sorted_wrt_nth_less [OF sorted_cands] assms by blast
qed

lemma triples_nth0:
  "concat (map (\<lambda>b. concat (map (\<lambda>m. map (\<lambda>n. (b, m, n)) (n # ns)) (m # ms))) (b # bs)) ! 0
     = (b, m, n)"
  by simp

lemma cands_nth0: "cands fz ! 0 = (2, 5, 16)" "0 < length (cands fz)"
proof -
  have b: "[2..64 - 1] = 2 # [2 + 1..64 - 1]" by (rule upto_rec1) simp
  have m: "[5..64 - 1] = 5 # [5 + 1..64 - 1]" by (rule upto_rec1) simp
  have n: "[16..bits_limit fz - 1] = 16 # [16 + 1..bits_limit fz - 1]"
    by (rule upto_rec1) (simp add: bits_limit_def)
  show "cands fz ! 0 = (2, 5, 16)"
    unfolding cands_def b m n by (rule triples_nth0)
  have "(2, 5, 16) \<in> set (cands fz)"
    by (simp add: set_cands in_space_def bits_limit_def)
  then show "0 < length (cands fz)" by (cases "cands fz") auto
qed

lemma init_case:
  assumes "0 < rate" "rate < 2147483648"
    and none: "\<forall>c\<in>set (cands fz). \<not> err rate c < cur rate init_divs"
    and c: "in_space fz c"
  shows "err rate (2, 5, 16) \<le> err rate c"
proof (cases "rate < 2147473648")
  case True
  have "s32 (rate + 10000) = rate + 10000" using assms(1) True by (intro s32_id) auto
  then have cur: "cur rate init_divs = rate + 10000"
    using assms(1) by (simp add: cur_def init_divs_def ABS_def)
  have "in_space fz (63, 63, 16)" by (simp add: in_space_def bits_limit_def)
  then have "\<not> err rate (63, 63, 16) < cur rate init_divs"
    using none by (simp add: set_cands)
  moreover have "err rate (63, 63, 16) < rate + 10000"
    using assms(1) by (simp add: err_def freq_of_def BASEFREQ_def)
  ultimately show ?thesis using cur by simp
next
  case False
  have "freq_of c \<le> 500000" by (rule freq_bounds [OF c])
  moreover have "freq_of (2, 5, 16) = 500000" by (simp add: freq_of_def BASEFREQ_def)
  ultimately show ?thesis using False by (simp add: err_def)
qed

lemma i2sSetRate_first_min:
  assumes "0 < rate" "rate < 2147483648"
  shows "\<exists>k<length (cands fz).
           chosen (i2sSetRate rate fz) = cands fz ! k \<and>
           (\<forall>j<k. err rate (cands fz ! k) < err rate (cands fz ! j)) \<and>
           (\<forall>j<length (cands fz). err rate (cands fz ! k) \<le> err rate (cands fz ! j))"
proof -
  have sp: "\<forall>c\<in>set (cands fz). in_space fz c" by (simp add: set_cands)
  from fold_step [OF assms sp, of init_divs] show ?thesis
  proof (elim disjE conjE exE)
    assume r: "fold (step rate) (cands fz) init_divs = init_divs"
      and none: "\<forall>c\<in>set (cands fz). \<not> err rate c < cur rate init_divs"
    have "\<forall>j<length (cands fz). err rate (cands fz ! 0) \<le> err rate (cands fz ! j)"
      using init_case [OF assms none] sp by (simp add: cands_nth0)
    moreover have "chosen (i2sSetRate rate fz) = cands fz ! 0"
      unfolding i2sSetRate_cands r by (simp add: cands_nth0 init_divs_def chosen_def)
    ultimately show ?thesis using cands_nth0(2) by (intro exI [of _ 0]) simp
  next
    fix k
    assume k: "k < length (cands fz)"
      and r: "fold (step rate) (cands fz) init_divs = mk (cands fz ! k)"
      and e: "\<forall>j<k. err rate (cands fz ! k) < err rate (cands fz ! j)"
      and l: "\<forall>j<length (cands fz). err rate (cands fz ! k) \<le> err rate (cands fz ! j)"
    have "chosen (i2sSetRate rate fz) = cands fz ! k"
      unfolding i2sSetRate_cands r by (cases "cands fz ! k") (simp add: mk_def chosen_def)
    with k e l show ?thesis by blast
  qed
qed

lemma i2sSetRate_44100:
  "i2sSetRate 44100 0 = \<lparr>bestclkmdiv = 57, bestbckdiv = 2, bestbits = 16, bestfreq = 43859\<rparr>"
  by code_simp

text \<open>
  C1. For every positive 32-bit rate and either setting of the word-length flag,
  the dividers that i2sSetRate chooses lie in the search space (bck divider from 2 to
  63, main clock divider from 5 to 63, bits 16, or 16 to 19 with the flag set), and the
  frequency they give is at least as close to the rate as that of any candidate
  \<open>(bckdiv, clkmdiv, bits)\<close> of the space.
\<close>

theorem i2sSetRate_minimal_error:
  assumes "0 < rate" "rate < 2147483648"
    and "2 \<le> bckdiv" "bckdiv < 64" "5 \<le> clkmdiv" "clkmdiv < 64"
    and "16 \<le> bits" "bits < (if enaWordlenFuzzing \<noteq> 0 then 20 else 17)"
  shows "2 \<le> bestbckdiv (i2sSetRate rate enaWordlenFuzzing) \<and>
         bestbckdiv (i2sSetRate rate enaWordlenFuzzing) < 64 \<and>
         5 \<le> bestclkmdiv (i2sSetRate rate enaWordlenFuzzing) \<and>
         bestclkmdiv (i2sSetRate rate enaWordlenFuzzing) < 64 \<and>
         16 \<le> bestbits (i2sSetRate rate enaWordlenFuzzing) \<and>
         bestbits (i2sSetRate rate enaWordlenFuzzing)
           < (if enaWordlenFuzzing \<noteq> 0 then 20 else 17) \<and>
         \<bar>rate - achieved (i2sSetRate rate enaWordlenFuzzing)\<bar>
           \<le> \<bar>rate - BASEFREQ div (bckdiv * clkmdiv * bits * 2)\<bar>"
proof -
  let ?r = "i2sSetRate rate enaWordlenFuzzing"
  let ?cs = "cands enaWordlenFuzzing"
  obtain k where k: "k < length ?cs" and ch: "chosen ?r = ?cs ! k"
    and le: "\<forall>j<length ?cs. err rate (?cs ! k) \<le> err rate (?cs ! j)"
    using i2sSetRate_first_min [OF assms(1,2), of enaWordlenFuzzing] by blast
  have "chosen ?r \<in> set ?cs" using k ch by simp
  then have sp: "in_space enaWordlenFuzzing (chosen ?r)" by (simp add: set_cands)
  have "in_space enaWordlenFuzzing (bckdiv, clkmdiv, bits)"
    using assms by (simp add: in_space_def bits_limit_def)
  then have "(bckdiv, clkmdiv, bits) \<in> set ?cs" by (simp add: set_cands)
  then obtain j where "j < length ?cs" "?cs ! j = (bckdiv, clkmdiv, bits)"
    by (auto simp: in_set_conv_nth)
  then have "err rate (chosen ?r) \<le> err rate (bckdiv, clkmdiv, bits)"
    using le ch by auto
  then have "\<bar>rate - achieved ?r\<bar> \<le> \<bar>rate - BASEFREQ div (bckdiv * clkmdiv * bits * 2)\<bar>"
    by (simp add: err_def freq_of_def chosen_def achieved_def)
  with sp show ?thesis by (simp add: in_space_def chosen_def bits_limit_def)
qed

theorem i2sSetRate_minimal_error_witness:
  "(0::int) < 44100 \<and> (44100::int) < 2147483648 \<and>
   (2::int) \<le> 2 \<and> (2::int) < 64 \<and> (5::int) \<le> 56 \<and> (56::int) < 64 \<and> (16::int) \<le> 16 \<and>
   (16::int) < (if (0::int) \<noteq> 0 then 20 else 17) \<and>
   bestbckdiv (i2sSetRate 44100 0) = 2 \<and> bestclkmdiv (i2sSetRate 44100 0) = 57 \<and>
   bestbits (i2sSetRate 44100 0) = 16 \<and> achieved (i2sSetRate 44100 0) = 43859 \<and>
   BASEFREQ div (2 * 56 * 16 * 2) = 44642 \<and>
   \<bar>44100 - achieved (i2sSetRate 44100 0)\<bar> \<le> \<bar>44100 - BASEFREQ div (2 * 56 * 16 * 2)\<bar>"
  using i2sSetRate_minimal_error [of 44100 2 56 16 0]
  by (simp add: i2sSetRate_44100 achieved_def BASEFREQ_def)

text \<open>
  C6. The chosen dividers are the first candidate of least error in the order of the
  loops (ascending bck divider, then main clock divider, then bits): their error is
  strictly smaller than that of every candidate visited before them and not larger
  than that of any candidate visited after them. A candidate whose error equals that
  of the current best leaves the best as it is.
\<close>

theorem i2sSetRate_first_best:
  assumes "0 < rate" "rate < 2147483648"
    and "in_space enaWordlenFuzzing (bckdiv, clkmdiv, bits)"
  shows "in_space enaWordlenFuzzing (chosen (i2sSetRate rate enaWordlenFuzzing)) \<and>
         (before (bckdiv, clkmdiv, bits) (chosen (i2sSetRate rate enaWordlenFuzzing)) \<longrightarrow>
            err rate (chosen (i2sSetRate rate enaWordlenFuzzing)) < err rate (bckdiv, clkmdiv, bits)) \<and>
         (before (chosen (i2sSetRate rate enaWordlenFuzzing)) (bckdiv, clkmdiv, bits) \<longrightarrow>
            err rate (chosen (i2sSetRate rate enaWordlenFuzzing)) \<le> err rate (bckdiv, clkmdiv, bits)) \<and>
         (ABS (s32 (rate - BASEFREQ div (bckdiv * clkmdiv * bits * 2))) = ABS (s32 (rate - bestfreq b)) \<longrightarrow>
            try_divs rate bckdiv clkmdiv bits b = b)"
proof -
  let ?r = "i2sSetRate rate enaWordlenFuzzing"
  let ?cs = "cands enaWordlenFuzzing"
  let ?c = "(bckdiv, clkmdiv, bits)"
  obtain k where k: "k < length ?cs" and ch: "chosen ?r = ?cs ! k"
    and lt: "\<forall>j<k. err rate (?cs ! k) < err rate (?cs ! j)"
    and le: "\<forall>j<length ?cs. err rate (?cs ! k) \<le> err rate (?cs ! j)"
    using i2sSetRate_first_min [OF assms(1,2), of enaWordlenFuzzing] by blast
  have "chosen ?r \<in> set ?cs" using k ch by simp
  then have sp: "in_space enaWordlenFuzzing (chosen ?r)" by (simp add: set_cands)
  have "?c \<in> set ?cs" using assms(3) by (simp add: set_cands)
  then obtain j where j: "j < length ?cs" "?cs ! j = ?c"
    by (auto simp: in_set_conv_nth)
  have 1: "err rate (chosen ?r) < err rate ?c" if "before ?c (chosen ?r)"
  proof -
    have "j < k" using that cands_index [OF j(1) k] j(2) ch by simp
    then show ?thesis using lt ch j(2) by auto
  qed
  have 2: "err rate (chosen ?r) \<le> err rate ?c" using le ch j by auto
  have 3: "try_divs rate bckdiv clkmdiv bits b = b"
    if "ABS (s32 (rate - BASEFREQ div (bckdiv * clkmdiv * bits * 2))) = ABS (s32 (rate - bestfreq b))"
    using that by (simp add: try_divs_def)
  from sp 1 2 3 show ?thesis by blast
qed

theorem i2sSetRate_first_best_witness:
  "(0::int) < 44100 \<and> (44100::int) < 2147483648 \<and> in_space 0 (3, 38, 16) \<and>
   chosen (i2sSetRate 44100 0) = (2, 57, 16) \<and>
   before (chosen (i2sSetRate 44100 0)) (3, 38, 16) \<and>
   err 44100 (3, 38, 16) = 241 \<and>
   err 44100 (chosen (i2sSetRate 44100 0)) \<le> err 44100 (3, 38, 16) \<and>
   in_space 0 (chosen (i2sSetRate 44100 0))"
proof -
  have h: "(0::int) < 44100" "(44100::int) < 2147483648" "in_space 0 (3, 38, 16)"
    by (simp_all add: in_space_def bits_limit_def)
  have c: "chosen (i2sSetRate 44100 0) = (2, 57, 16)"
    by (simp add: i2sSetRate_44100 chosen_def)
  have b: "before (chosen (i2sSetRate 44100 0)) (3, 38, 16)"
    unfolding c by (simp add: before_def)
  have e: "err 44100 (3, 38, 16) = 241"
    by (simp add: err_def freq_of_def BASEFREQ_def)
  from i2sSetRate_first_best [OF h, of "\<lparr>bestclkmdiv = 5, bestbckdiv = 2, bestbits = 16, bestfreq = 0\<rparr>"] b
  have "err 44100 (chosen (i2sSetRate 44100 0)) \<le> err 44100 (3, 38, 16)"
    and "in_space 0 (chosen (i2sSetRate 44100 0))" by blast+
  with h c b e show ?thesis by blast
qed

section \<open>Lemmas about initialisation, the interrupt handler and the producer\<close>

subsection \<open>The two loops of initialisation\<close>

lemma rbind_Done [simp]: "rbind (Done x) f = f x"
  by (simp add: rbind_def)

lemma rbind_Fault [simp]: "rbind (Fault e) f = Fault e"
  by (simp add: rbind_def)

lemma rbind_Blocked [simp]: "rbind Blocked f = Blocked"
  by (simp add: rbind_def)

lemma rbind_Done_right [simp]: "rbind r Done = r"
  by (cases r) simp_all

lemma for_loop_append:
  "for_loop (xs @ ys) body s = rbind (for_loop xs body s) (for_loop ys body)"
  by (induction xs arbitrary: s) (auto simp: rbind_def split: result.splits)

lemma clear_loop:
  assumes "k < length hp" "hp ! k = replicate n 0" "m \<le> n"
  shows "for_loop [0..<m] (\<lambda>x hp2. store8 hp2 (BufPtr k) x 0) hp = Done hp"
  using assms(3)
proof (induction m)
  case 0
  then show ?case by simp
next
  case (Suc m)
  have "(replicate n (0::u8))[m := 0] = replicate n 0"
    using Suc.prems by (intro nth_equalityI) (auto simp: nth_list_update)
  then have "(hp ! k)[m := 0] = hp ! k" using assms(2) by simp
  then have "hp[k := (hp ! k)[m := 0]] = hp" by simp
  then have "store8 hp (BufPtr k) m 0 = Done hp"
    using assms(1,2) Suc.prems by (simp add: store8_def)
  then show ?case using Suc by (simp add: for_loop_append)
qed

lemma alloc_buffer_ok:
  assumes "alloc_ok y" "y < length bufs"
  shows "alloc_buffer h alloc_ok y (hp, bufs) =
         Done (hp @ [replicate (I2SDMABUFLEN h * 4) 0], bufs[y := BufPtr (length hp)])"
proof -
  let ?hp1 = "hp @ [replicate (I2SDMABUFLEN h * 4) 0]"
  have "for_loop [0..<I2SDMABUFLEN h] (\<lambda>x hp2. store8 hp2 (BufPtr (length hp)) x 0) ?hp1 = Done ?hp1"
    by (rule clear_loop [where n = "I2SDMABUFLEN h * 4"]) simp_all
  then show ?thesis using assms by (simp add: alloc_buffer_def calloc_def Let_def)
qed

lemma alloc_buffer_fail:
  assumes "\<not> alloc_ok y" "y < length bufs" "0 < I2SDMABUFLEN h"
  shows "alloc_buffer h alloc_ok y (hp, bufs) = Fault NullStore"
proof -
  have "[0..<I2SDMABUFLEN h] = 0 # [1..<I2SDMABUFLEN h]"
    using assms(3) by (simp add: upt_conv_Cons)
  then show ?thesis
    using assms by (simp add: alloc_buffer_def calloc_def Let_def store8_def)
qed

lemma alloc_loop:
  assumes "n \<le> c" "0 < I2SDMABUFLEN h"
  shows "for_loop [0..<n] (alloc_buffer h alloc_ok) ([], replicate c NULL) =
         (if \<forall>y<n. alloc_ok y
          then Done (replicate n (replicate (I2SDMABUFLEN h * 4) 0),
                     map BufPtr [0..<n] @ replicate (c - n) NULL)
          else Fault NullStore)"
  using assms(1)
proof (induction n)
  case 0
  then show ?case by simp
next
  case (Suc n)
  let ?z = "replicate (I2SDMABUFLEN h * 4) (0::u8)"
  let ?bufs = "map BufPtr [0..<n] @ replicate (c - n) NULL"
  have ih: "for_loop [0..<n] (alloc_buffer h alloc_ok) ([], replicate c NULL) =
        (if \<forall>y<n. alloc_ok y then Done (replicate n ?z, ?bufs) else Fault NullStore)"
    using Suc by simp
  have len: "n < length ?bufs" using Suc.prems by simp
  show ?case
  proof (cases "\<forall>y<n. alloc_ok y")
    case False
    then have "\<not> (\<forall>y<Suc n. alloc_ok y)" by (auto simp: less_Suc_eq)
    then show ?thesis using ih False by (simp add: for_loop_append)
  next
    case True
    note pre = True
    show ?thesis
    proof (cases "alloc_ok n")
      case False
      then have "\<not> (\<forall>y<Suc n. alloc_ok y)" by auto
      moreover have "alloc_buffer h alloc_ok n (replicate n ?z, ?bufs) = Fault NullStore"
        using False len assms(2) by (rule alloc_buffer_fail)
      ultimately show ?thesis using ih pre by (simp add: for_loop_append)
    next
      case True
      then have all: "\<forall>y<Suc n. alloc_ok y" using pre by (auto simp: less_Suc_eq)
      have "c - n = Suc (c - Suc n)" using Suc.prems by simp
      then have upd: "?bufs[n := BufPtr n] = map BufPtr [0..<Suc n] @ replicate (c - Suc n) NULL"
        by (simp add: list_update_append)
      have "alloc_buffer h alloc_ok n (replicate n ?z, ?bufs) =
            Done (replicate n ?z @ [?z], ?bufs[n := BufPtr (length (replicate n ?z))])"
        using True len by (rule alloc_buffer_ok)
      then have "alloc_buffer h alloc_ok n (replicate n ?z, ?bufs) =
            Done (replicate (Suc n) ?z, map BufPtr [0..<Suc n] @ replicate (c - Suc n) NULL)"
        using upd by (simp add: replicate_append_same)
      moreover have "for_loop [0..<Suc n] (alloc_buffer h alloc_ok) ([], replicate c NULL) =
            rbind (for_loop [0..<n] (alloc_buffer h alloc_ok) ([], replicate c NULL))
              (for_loop [n] (alloc_buffer h alloc_ok))"
        by (simp add: for_loop_append)
      ultimately have "for_loop [0..<Suc n] (alloc_buffer h alloc_ok) ([], replicate c NULL) =
            Done (replicate (Suc n) ?z, map BufPtr [0..<Suc n] @ replicate (c - Suc n) NULL)"
        using ih pre by (simp del: replicate_Suc upt_Suc)
      then show ?thesis using all by (simp del: replicate_Suc upt_Suc)
    qed
  qed
qed

lemma desc_loop:
  assumes "n \<le> I2SDMABUFCNT h"
  shows "fold (init_desc h bufs) [0..<n] (replicate (I2SDMABUFCNT h) zero_desc) =
         map (init_desc_at h bufs) [0..<n] @ replicate (I2SDMABUFCNT h - n) zero_desc"
  using assms
proof (induction n)
  case 0
  then show ?case by simp
next
  case (Suc n)
  have c: "I2SDMABUFCNT h - n = Suc (I2SDMABUFCNT h - Suc n)" using Suc.prems by simp
  have nx: "(if int n < int (I2SDMABUFCNT h) - 1 then DescPtr (n + 1) else DescPtr 0) =
        DescPtr (Suc n mod I2SDMABUFCNT h)"
  proof (cases "Suc n = I2SDMABUFCNT h")
    case True
    then show ?thesis by auto
  next
    case False
    then have "Suc n < I2SDMABUFCNT h" using Suc.prems by simp
    then show ?thesis by auto
  qed
  have "init_desc h bufs n (map (init_desc_at h bufs) [0..<n] @ replicate (I2SDMABUFCNT h - n) zero_desc)
      = map (init_desc_at h bufs) [0..<Suc n] @ replicate (I2SDMABUFCNT h - Suc n) zero_desc"
    unfolding init_desc_def nx c by (simp add: list_update_append init_desc_at_def)
  then show ?case using Suc by simp
qed

text \<open>
  With buffers of at least one frame, initialisation returns a state exactly when
  every allocation succeeds, and then it is the state \<open>init_state\<close>.
\<close>

lemma i2sInit_eq:
  assumes "0 < I2SDMABUFLEN h"
  shows "i2sInit h alloc_ok =
         (if \<forall>y<I2SDMABUFCNT h. alloc_ok y then Done (init_state h) else Fault NullStore)"
  unfolding i2sInit_def alloc_loop [OF order_refl assms]
  by (simp add: init_state_def desc_loop)

lemma i2sInit_descs:
  assumes "i2sInit h alloc_ok = Done s"
  shows "i2sBufDesc s = map (init_desc_at h (i2sBuf s)) [0..<I2SDMABUFCNT h]"
    and "I2S_OUTLINK_ADDR s = DescPtr 0" and "I2S_INLINK_ADDR s = DescPtr 1"
    and "uxLength (dmaQueue s) = I2SDMABUFCNT h - 1" and "items (dmaQueue s) = []"
    and "currDMABuff s = NULL" and "currDMABuffPos s = 0" and "underrunCnt s = 0"
    and "I2S_OUTLINK_START s" and "I2S_TX_START s"
  using assms
  by (auto simp: i2sInit_def rbind_def desc_loop xQueueCreate_def split: result.splits prod.splits)



lemma follow_ring:
  assumes "ds = map (init_desc_at h bufs) [0..<I2SDMABUFCNT h]" "0 < I2SDMABUFCNT h"
  shows "follow ds k (DescPtr 0) = DescPtr (k mod I2SDMABUFCNT h)"
proof (induction k)
  case 0
  then show ?case by simp
next
  case (Suc k)
  have "k mod I2SDMABUFCNT h < I2SDMABUFCNT h" using assms(2) by simp
  then have "desc_next ds (DescPtr (k mod I2SDMABUFCNT h)) =
        DescPtr (Suc (k mod I2SDMABUFCNT h) mod I2SDMABUFCNT h)"
    by (simp add: desc_next_def assms(1) init_desc_at_def)
  then show ?case using Suc by (simp add: mod_Suc_eq)
qed

subsection \<open>Stores into a sample buffer\<close>

text \<open>Reading the four bytes of a frame back gives the frame.\<close>

lemma le_word_bytes: "le_word (le_bytes v) = v"
  unfolding le_word_def le_bytes_def
proof (rule bit_word_eqI)
  fix n assume "n < LENGTH(32)"
  then consider "n < 8" | "8 \<le> n" "n < 16" | "16 \<le> n" "n < 24" | "24 \<le> n" "n < 32"
    by fastforce
  then show "bit (ucast ([ucast v, ucast (drop_bit 8 v), ucast (drop_bit 16 v),
        ucast (drop_bit 24 v) :: 8 word] ! 0) OR
      push_bit 8 (ucast ([ucast v, ucast (drop_bit 8 v), ucast (drop_bit 16 v),
        ucast (drop_bit 24 v) :: 8 word] ! 1)) OR
      push_bit 16 (ucast ([ucast v, ucast (drop_bit 8 v), ucast (drop_bit 16 v),
        ucast (drop_bit 24 v) :: 8 word] ! 2)) OR
      push_bit 24 (ucast ([ucast v, ucast (drop_bit 8 v), ucast (drop_bit 16 v),
        ucast (drop_bit 24 v) :: 8 word] ! 3)) :: 32 word) n = bit v n"
    by cases (auto simp: bit_simps)
qed

lemma length_le_bytes [simp]: "length (le_bytes v) = 4"
  by (simp add: le_bytes_def)

text \<open>What a successful 32-bit store leaves behind.\<close>

lemma store32_Done:
  assumes "store32 hp p i v = Done hp'"
  shows "\<exists>k. p = BufPtr k \<and> k < length hp \<and> 0 \<le> i \<and> 4 * nat i + 4 \<le> length (hp ! k) \<and>
           hp' = hp[k := take (4 * nat i) (hp ! k) @ le_bytes v @ drop (4 * nat i + 4) (hp ! k)]"
  using assms by (cases p) (auto simp: store32_def split: if_splits)

lemma store32_block:
  fixes v :: u32
  assumes "k < length hp" "4 * n + 4 \<le> length (hp ! k)"
  defines "hp' \<equiv> hp[k := take (4 * n) (hp ! k) @ le_bytes v @ drop (4 * n + 4) (hp ! k)]"
  shows "length hp' = length hp"
    and "length (hp' ! j) = length (hp ! j)"
    and "load32 hp' k n = v"
    and "j \<noteq> k \<Longrightarrow> hp' ! j = hp ! j"
    and "b < length (hp ! k) \<Longrightarrow> b < 4 * n \<or> 4 * n + 4 \<le> b \<Longrightarrow> hp' ! k ! b = hp ! k ! b"
proof -
  show "length hp' = length hp" by (simp add: hp'_def)
  show "length (hp' ! j) = length (hp ! j)"
    using assms(1,2) by (cases "j = k") (simp_all add: hp'_def)
  have blk: "hp' ! k = take (4 * n) (hp ! k) @ le_bytes v @ drop (4 * n + 4) (hp ! k)"
    using assms(1) by (simp add: hp'_def)
  have "length (take (4 * n) (hp ! k)) = 4 * n" using assms(2) by simp
  then have "take 4 (drop (4 * n) (hp' ! k)) = le_bytes v"
    unfolding blk by simp
  then show "load32 hp' k n = v" by (simp add: load32_def le_word_bytes)
  show "hp' ! j = hp ! j" if "j \<noteq> k" using that by (simp add: hp'_def)
  show "hp' ! k ! b = hp ! k ! b" if "b < length (hp ! k)" "b < 4 * n \<or> 4 * n + 4 \<le> b"
  proof (cases "b < 4 * n")
    case True
    then show ?thesis using assms(2) unfolding blk by (simp add: nth_append)
  next
    case False
    then have b: "4 * n + 4 \<le> b" using that by simp
    have l: "length (take (4 * n) (hp ! k)) = 4 * n" using assms(2) by simp
    have "hp' ! k ! b = (le_bytes v @ drop (4 * n + 4) (hp ! k)) ! (b - 4 * n)"
      unfolding blk using b l by (simp add: nth_append)
    also have "\<dots> = drop (4 * n + 4) (hp ! k) ! (b - 4 * n - length (le_bytes v))"
    proof -
      have "\<not> b - 4 * n < length (le_bytes v)" using b by simp
      then show ?thesis by (simp only: nth_append if_False)
    qed
    also have "\<dots> = drop (4 * n + 4) (hp ! k) ! (b - 4 * n - 4)" by simp
    also have "\<dots> = hp ! k ! b"
      using b that(1) by simp
    finally show ?thesis .
  qed
qed

subsection \<open>What every run keeps\<close>

lemma i2sPushSample_unfold:
  "i2sPushSample h x s =
     (if need_buffer h s
      then (case items (dmaQueue s) of
              [] \<Rightarrow> Blocked
            | t # ts \<Rightarrow>
                rbind (store32 (heap s) t 0 x)
                  (\<lambda>hp. Done (s\<lparr>dmaQueue := (dmaQueue s)\<lparr>items := ts\<rparr>,
                                  currDMABuff := t, heap := hp, currDMABuffPos := 1\<rparr>)))
      else rbind (store32 (heap s) (currDMABuff s) (currDMABuffPos s) x)
             (\<lambda>hp. Done (s\<lparr>heap := hp, currDMABuffPos := currDMABuffPos s + 1\<rparr>)))"
  by (simp add: i2sPushSample_def need_buffer_def xQueueReceive_def split: list.splits)

lemma valid_buf_store:
  assumes "store32 hp p i v = Done hp'"
  shows "valid_buf h hp' = valid_buf h hp"
proof (rule ext)
  fix q
  obtain k where k: "p = BufPtr k" "k < length hp" "0 \<le> i" "4 * nat i + 4 \<le> length (hp ! k)"
    "hp' = hp[k := take (4 * nat i) (hp ! k) @ le_bytes v @ drop (4 * nat i + 4) (hp ! k)]"
    using store32_Done [OF assms] by blast
  show "valid_buf h hp' q = valid_buf h hp q"
    using store32_block(1,2) [OF k(2,4), of v] unfolding k(5) [symmetric]
    by (cases q) (simp_all add: valid_buf_def)
qed

lemma store32_valid:
  assumes "valid_buf h hp p" "0 \<le> i" "i < int (I2SDMABUFLEN h)"
  shows "\<exists>hp'. store32 hp p i v = Done hp'"
  using assms by (cases p) (auto simp: valid_buf_def store32_def)

lemma push_inv:
  assumes "inv h s" "0 < I2SDMABUFLEN h"
  shows "(need_buffer h s \<and> items (dmaQueue s) = [] \<longrightarrow> i2sPushSample h x s = Blocked) \<and>
         (\<not> (need_buffer h s \<and> items (dmaQueue s) = []) \<longrightarrow>
            (\<exists>s'. i2sPushSample h x s = Done s' \<and> inv h s' \<and>
                  currDMABuffPos s' = (if need_buffer h s then 1 else currDMABuffPos s + 1) \<and>
                  1 \<le> currDMABuffPos s' \<and>
                  currDMABuff s' = (if need_buffer h s then hd (items (dmaQueue s)) else currDMABuff s) \<and>
                  valid_buf h (heap s') (currDMABuff s') \<and>
                  dmaQueue s' = (if need_buffer h s
                                 then (dmaQueue s)\<lparr>items := tl (items (dmaQueue s))\<rparr>
                                 else dmaQueue s)))"
proof (cases "need_buffer h s")
  case True
  note need = True
  show ?thesis
  proof (cases "items (dmaQueue s)")
    case Nil
    then show ?thesis using need by (simp add: i2sPushSample_unfold)
  next
    case (Cons t ts)
    have vt: "valid_buf h (heap s) t" and vts: "list_all (valid_buf h (heap s)) ts"
      using assms(1) Cons by (simp_all add: inv_def)
    obtain hp' where st: "store32 (heap s) t 0 x = Done hp'"
      using store32_valid [OF vt, of 0 x] assms(2) by auto
    note vb = valid_buf_store [OF st, of h]
    let ?s' = "s\<lparr>dmaQueue := (dmaQueue s)\<lparr>items := ts\<rparr>,
                 currDMABuff := t, heap := hp', currDMABuffPos := 1\<rparr>"
    have r: "i2sPushSample h x s = Done ?s'"
      using need Cons st by (simp add: i2sPushSample_unfold)
    have "inv h ?s'"
      using assms vt vts Cons by (simp add: inv_def vb)
    then show ?thesis using r need Cons vt by (simp add: vb)
  qed
next
  case False
  then have p: "currDMABuffPos s \<noteq> int (I2SDMABUFLEN h)" and nn: "currDMABuff s \<noteq> NULL"
    by (simp_all add: need_buffer_def)
  have v: "valid_buf h (heap s) (currDMABuff s)" and p0: "0 \<le> currDMABuffPos s"
    and p1: "currDMABuffPos s < int (I2SDMABUFLEN h)"
    using assms(1) p nn by (auto simp: inv_def)
  obtain hp' where st: "store32 (heap s) (currDMABuff s) (currDMABuffPos s) x = Done hp'"
    using store32_valid [OF v p0 p1] by blast
  note vb = valid_buf_store [OF st, of h]
  let ?s' = "s\<lparr>heap := hp', currDMABuffPos := currDMABuffPos s + 1\<rparr>"
  have r: "i2sPushSample h x s = Done ?s'"
    using False st by (simp add: i2sPushSample_unfold)
  have "inv h ?s'"
    using assms(1) p0 p1 v by (simp add: inv_def vb)
  then show ?thesis using r False p0 v by (simp add: vb)
qed

lemma isr_inv:
  assumes "inv h s" "i2s_isr h hw s = Done s'"
  shows "inv h s'"
proof (cases "I2S_INT_ST_REG hw = 0")
  case True
  then show ?thesis using assms by (simp add: i2s_isr_def)
next
  case False
  note st = False
  show ?thesis
  proof (cases "I2S_INT_ST_REG hw AND I2S_OUT_EOF_INT_ST h = 0")
    case True
    then have "s' = s\<lparr>I2S_INT_CLR_REG := I2S_INT_CLR_REG s @ [0xffffffff]\<rparr>"
      using assms(2) st by (simp add: i2s_isr_def Let_def)
    then show ?thesis using assms(1) by (simp add: inv_def)
  next
    case False
    then obtain d where d: "I2S_OUT_EOF_DES_ADDR_REG hw = DescPtr d" "d < length (i2sBufDesc s)"
      using assms(2) st by (auto simp: i2s_isr_def Let_def split: ptr.splits if_splits)
    have vt: "valid_buf h (heap s) (buf (i2sBufDesc s ! d))"
      using assms(1) d(2) by (simp add: inv_def list_all_length)
    have vq: "list_all (valid_buf h (heap s)) (items (dmaQueue s))"
      using assms(1) by (simp add: inv_def)
    then have vtl: "list_all (valid_buf h (heap s)) (tl (items (dmaQueue s)))"
      by (cases "items (dmaQueue s)") simp_all
    have "heap s' = heap s \<and> currDMABuff s' = currDMABuff s \<and>
          currDMABuffPos s' = currDMABuffPos s \<and> i2sBufDesc s' = i2sBufDesc s \<and>
          list_all (valid_buf h (heap s)) (items (dmaQueue s')) \<and>
          uxLength (dmaQueue s') = uxLength (dmaQueue s) \<and>
          length (items (dmaQueue s')) \<le> uxLength (dmaQueue s)"
      using assms(2) st False d vt vq vtl assms(1)
      by (auto simp: inv_def i2s_isr_def Let_def xQueueIsQueueFullFromISR_def xQueueReceiveFromISR_def
          xQueueSendFromISR_def split: list.splits if_splits)
    then show ?thesis using assms(1) by (simp add: inv_def)
  qed
qed

lemma run_inv:
  assumes "inv h s" "0 < I2SDMABUFLEN h"
  shows "run h evs s \<noteq> Fault NullStore \<and> run h evs s \<noteq> Fault OutOfBounds \<and>
         (\<forall>s'. run h evs s = Done s' \<longrightarrow> inv h s')"
  using assms(1)
proof (induction evs arbitrary: s)
  case Nil
  then show ?case by simp
next
  case (Cons e evs)
  show ?case
  proof (cases e)
    case (Push x)
    show ?thesis
    proof (cases "need_buffer h s \<and> items (dmaQueue s) = []")
      case True
      then have "i2sPushSample h x s = Blocked" using push_inv [OF Cons.prems assms(2)] by blast
      then show ?thesis using Push by simp
    next
      case False
      then obtain s1 where "i2sPushSample h x s = Done s1" "inv h s1"
        using push_inv [OF Cons.prems assms(2), of x] by blast
      then show ?thesis using Push Cons.IH [of s1] by simp
    qed
  next
    case (Irq hw)
    show ?thesis
    proof (cases "i2s_isr h hw s")
      case (Done s1)
      then have "inv h s1" using isr_inv [OF Cons.prems] by blast
      then show ?thesis using Irq Done Cons.IH [of s1] by simp
    next
      case Blocked
      then show ?thesis using Irq by simp
    next
      case (Fault f)
      then have "f = BadDescriptor"
        by (auto simp: i2s_isr_def Let_def split: if_splits ptr.splits)
      then show ?thesis using Irq Fault by simp
    qed
  qed
qed

lemma inv_init_state:
  "inv h (init_state h)"
  by (simp add: inv_def init_state_def xQueueCreate_def list_all_length init_desc_at_def valid_buf_def)

subsection \<open>Runs of pushes\<close>

lemma pushes_append:
  "i2sPushSamples h (xs @ ys) s = rbind (i2sPushSamples h xs s) (i2sPushSamples h ys)"
  by (induction xs arbitrary: s) (auto simp: rbind_def split: result.splits)

lemma pushes_within:
  assumes "0 < I2SDMABUFLEN h"
  shows "inv h s \<Longrightarrow> valid_buf h (heap s) (currDMABuff s) \<Longrightarrow>
         currDMABuffPos s + int (length xs) \<le> int (I2SDMABUFLEN h) \<Longrightarrow>
         \<exists>s'. i2sPushSamples h xs s = Done s' \<and> inv h s' \<and>
              currDMABuffPos s' = currDMABuffPos s + int (length xs) \<and>
              currDMABuff s' = currDMABuff s \<and> dmaQueue s' = dmaQueue s \<and>
              valid_buf h (heap s') (currDMABuff s')"
proof (induction xs arbitrary: s)
  case Nil
  then show ?case by simp
next
  case (Cons x xs)
  have "currDMABuff s \<noteq> NULL" using Cons.prems(2) by (auto simp: valid_buf_def)
  moreover have "currDMABuffPos s \<noteq> int (I2SDMABUFLEN h)" using Cons.prems(3) by simp
  ultimately have nn: "\<not> need_buffer h s" by (simp add: need_buffer_def)
  then obtain s1 where s1: "i2sPushSample h x s = Done s1" "inv h s1"
    "currDMABuffPos s1 = currDMABuffPos s + 1" "currDMABuff s1 = currDMABuff s"
    "valid_buf h (heap s1) (currDMABuff s1)" "dmaQueue s1 = dmaQueue s"
    using push_inv [OF Cons.prems(1) assms, of x] by auto
  have "currDMABuffPos s1 + int (length xs) \<le> int (I2SDMABUFLEN h)"
    using Cons.prems(3) s1(3) by simp
  from Cons.IH [OF s1(2) s1(5) this] obtain s' where
    "i2sPushSamples h xs s1 = Done s'" "inv h s'"
    "currDMABuffPos s' = currDMABuffPos s1 + int (length xs)"
    "currDMABuff s' = currDMABuff s1" "dmaQueue s' = dmaQueue s1"
    "valid_buf h (heap s') (currDMABuff s')" by blast
  then show ?case using s1 by simp
qed

lemma pushes_fill:
  assumes "0 < I2SDMABUFLEN h" "inv h s" "need_buffer h s" "items (dmaQueue s) = t # ts"
    and "xs \<noteq> []" "length xs \<le> I2SDMABUFLEN h"
  shows "\<exists>s'. i2sPushSamples h xs s = Done s' \<and> inv h s' \<and>
              currDMABuffPos s' = int (length xs) \<and> currDMABuff s' = t \<and>
              dmaQueue s' = (dmaQueue s)\<lparr>items := ts\<rparr>"
proof -
  obtain x xs' where xs: "xs = x # xs'" using assms(5) by (cases xs) auto
  obtain s1 where s1: "i2sPushSample h x s = Done s1" "inv h s1"
    "currDMABuffPos s1 = 1" "currDMABuff s1 = t"
    "valid_buf h (heap s1) (currDMABuff s1)" "dmaQueue s1 = (dmaQueue s)\<lparr>items := ts\<rparr>"
    using push_inv [OF assms(2,1), of x] assms(3,4) by auto
  have "currDMABuffPos s1 + int (length xs') \<le> int (I2SDMABUFLEN h)"
    using assms(6) s1(3) xs by simp
  from pushes_within [OF assms(1) s1(2) s1(5) this] obtain s' where
    "i2sPushSamples h xs' s1 = Done s'" "inv h s'"
    "currDMABuffPos s' = currDMABuffPos s1 + int (length xs')"
    "currDMABuff s' = currDMABuff s1" "dmaQueue s' = dmaQueue s1" by blast
  then show ?thesis using s1 xs by simp
qed

lemma pushes_blocked:
  assumes "0 < I2SDMABUFLEN h" "inv h s" "need_buffer h s" "items (dmaQueue s) = []" "xs \<noteq> []"
  shows "i2sPushSamples h xs s = Blocked"
proof -
  obtain x xs' where xs: "xs = x # xs'" using assms(5) by (cases xs) auto
  have "i2sPushSample h x s = Blocked" using push_inv [OF assms(2,1), of x] assms(3,4) by simp
  then show ?thesis by (simp add: xs)
qed

text \<open>One sample more than a buffer holds, pushed by a producer that holds no buffer.\<close>

lemma pushes_over_boundary:
  assumes "2 \<le> I2SDMABUFLEN h" "inv h s" "need_buffer h s" "length xs = I2SDMABUFLEN h + 2"
  shows "length (items (dmaQueue s)) < 2 \<Longrightarrow> i2sPushSamples h xs s = Blocked"
    and "2 \<le> length (items (dmaQueue s)) \<Longrightarrow>
         \<exists>s'. i2sPushSamples h xs s = Done s' \<and> currDMABuffPos s' = 2 \<and>
              currDMABuff s' = items (dmaQueue s) ! 1 \<and>
              dmaQueue s' = (dmaQueue s)\<lparr>items := drop 2 (items (dmaQueue s))\<rparr>"
proof -
  have pos: "0 < I2SDMABUFLEN h" using assms(1) by simp
  define xs1 where "xs1 = take (I2SDMABUFLEN h) xs"
  define xs2 where "xs2 = drop (I2SDMABUFLEN h) xs"
  have xs: "xs = xs1 @ xs2" by (simp add: xs1_def xs2_def)
  have l1: "length xs1 = I2SDMABUFLEN h" and l2: "length xs2 = 2"
    using assms(4) by (simp_all add: xs1_def xs2_def)
  have ne1: "xs1 \<noteq> []" and ne2: "xs2 \<noteq> []" using l1 l2 pos by auto
  have ne: "xs \<noteq> []" using ne1 xs by simp
  show "i2sPushSamples h xs s = Blocked" if "length (items (dmaQueue s)) < 2"
  proof (cases "items (dmaQueue s)")
    case Nil
    then show ?thesis using pushes_blocked [OF pos assms(2,3) _ ne] by simp
  next
    case (Cons t ts)
    then have ts: "ts = []" using that by simp
    obtain s1 where s1: "i2sPushSamples h xs1 s = Done s1" "inv h s1"
      "currDMABuffPos s1 = int (length xs1)" "dmaQueue s1 = (dmaQueue s)\<lparr>items := ts\<rparr>"
      using pushes_fill [OF pos assms(2,3) Cons ne1] l1 by auto
    have "need_buffer h s1" using s1(3) l1 by (simp add: need_buffer_def)
    moreover have "items (dmaQueue s1) = []" using s1(4) ts by simp
    ultimately have "i2sPushSamples h xs2 s1 = Blocked"
      using pushes_blocked [OF pos s1(2) _ _ ne2] by simp
    then show ?thesis using s1(1) by (simp add: xs pushes_append)
  qed
  show "\<exists>s'. i2sPushSamples h xs s = Done s' \<and> currDMABuffPos s' = 2 \<and>
              currDMABuff s' = items (dmaQueue s) ! 1 \<and>
              dmaQueue s' = (dmaQueue s)\<lparr>items := drop 2 (items (dmaQueue s))\<rparr>"
    if len2: "2 \<le> length (items (dmaQueue s))"
  proof -
    obtain t1 r where r: "items (dmaQueue s) = t1 # r"
      using len2 by (cases "items (dmaQueue s)") auto
    obtain t2 ts where "r = t2 # ts" using len2 r by (cases r) auto
    with r have q: "items (dmaQueue s) = t1 # t2 # ts" by simp
    obtain s1 where s1: "i2sPushSamples h xs1 s = Done s1" "inv h s1"
      "currDMABuffPos s1 = int (length xs1)" "dmaQueue s1 = (dmaQueue s)\<lparr>items := t2 # ts\<rparr>"
      using pushes_fill [OF pos assms(2,3) q ne1] l1 by auto
    have n1: "need_buffer h s1" using s1(3) l1 by (simp add: need_buffer_def)
    have q1: "items (dmaQueue s1) = t2 # ts" using s1(4) by simp
    obtain s2 where s2: "i2sPushSamples h xs2 s1 = Done s2"
      "currDMABuffPos s2 = int (length xs2)" "currDMABuff s2 = t2"
      "dmaQueue s2 = (dmaQueue s1)\<lparr>items := ts\<rparr>"
      using pushes_fill [OF pos s1(2) n1 q1 ne2] l2 assms(1) by auto
    have "i2sPushSamples h xs s = Done s2" using s1(1) s2(1) by (simp add: xs pushes_append)
    then show ?thesis using s2 s1(4) q l2 by simp
  qed
qed

subsection \<open>The example configuration\<close>

lemma init_h4: "i2sInit h4 (\<lambda>y. True) = Done (init_state h4)"
  by (simp add: i2sInit_eq h4_def)

lemma isr_h4_0: "i2s_isr h4 (eof_irq 0) (init_state h4) = Done after_irq"
  by (simp add: i2s_isr_def eof_irq_def h4_def init_state_def after_irq_def Let_def
      xQueueIsQueueFullFromISR_def xQueueCreate_def xQueueSendFromISR_def init_desc_at_def)

lemma isr_h4_1: "i2s_isr h4 (eof_irq 1) after_irq = Done after_two_irqs"
  by (simp add: i2s_isr_def eof_irq_def h4_def init_state_def after_irq_def after_two_irqs_def Let_def
      xQueueIsQueueFullFromISR_def xQueueCreate_def xQueueSendFromISR_def init_desc_at_def)

lemma push_h4: "i2sPushSample h4 7 after_irq = Done after_push"
  by (simp add: i2sPushSample_unfold need_buffer_def after_irq_def after_push_def init_state_def
      h4_def store32_def)

lemma run_h4_full:
  "run h4 [Irq (eof_irq 1), Irq (eof_irq 2), Irq (eof_irq 3)] (init_state h4) = Done queue_full"
  by (simp add: i2s_isr_def eof_irq_def h4_def init_state_def queue_full_def Let_def
      xQueueIsQueueFullFromISR_def xQueueCreate_def xQueueSendFromISR_def init_desc_at_def)

lemma run_h4_irq: "run h4 [Irq (eof_irq 0)] (init_state h4) = Done after_irq"
  by (simp add: isr_h4_0)

lemma run_h4_two_irqs:
  "run h4 [Irq (eof_irq 0), Irq (eof_irq 1)] (init_state h4) = Done after_two_irqs"
  using isr_h4_0 isr_h4_1 by simp


lemma push_h4_2: "i2sPushSample h4 9 after_push = Done after_push2"
  by (simp add: i2sPushSample_unfold need_buffer_def after_irq_def after_push_def after_push2_def
      init_state_def h4_def store32_def)

lemma run_h4_push:
  "run h4 [Irq (eof_irq 0), Push 7] (init_state h4) = Done after_push"
  by (simp add: isr_h4_0 push_h4)

section \<open>The properties of the interrupt handler and of initialisation\<close>

lemma init_inv:
  assumes "0 < I2SDMABUFLEN h" "i2sInit h alloc_ok = Done s0"
  shows "s0 = init_state h" "inv h s0" "\<forall>y<I2SDMABUFCNT h. alloc_ok y"
proof -
  show all: "\<forall>y<I2SDMABUFCNT h. alloc_ok y"
    using assms by (auto simp: i2sInit_eq split: if_splits)
  then show "s0 = init_state h" using assms by (simp add: i2sInit_eq)
  then show "inv h s0" by (simp add: inv_init_state)
qed

text \<open>
  The handler's step for a finished buffer, in any state whose queue was created with
  room for at least one token and holds no more tokens than that.
\<close>

lemma isr_eof_step:
  assumes "I2S_INT_ST_REG hw AND I2S_OUT_EOF_INT_ST h \<noteq> 0"
    and "I2S_OUT_EOF_DES_ADDR_REG hw = DescPtr d" "d < length (i2sBufDesc s)"
    and "0 < uxLength (dmaQueue s)" "length (items (dmaQueue s)) \<le> uxLength (dmaQueue s)"
  shows "i2s_isr h hw s =
     Done (if length (items (dmaQueue s)) = uxLength (dmaQueue s)
           then s\<lparr>I2S_INT_CLR_REG := I2S_INT_CLR_REG s @ [0xffffffff],
                  underrunCnt := s32 (underrunCnt s + 1),
                  dmaQueue := (dmaQueue s)\<lparr>items :=
                    tl (items (dmaQueue s)) @ [buf (i2sBufDesc s ! d)]\<rparr>\<rparr>
           else s\<lparr>I2S_INT_CLR_REG := I2S_INT_CLR_REG s @ [0xffffffff],
                  dmaQueue := (dmaQueue s)\<lparr>items :=
                    items (dmaQueue s) @ [buf (i2sBufDesc s ! d)]\<rparr>\<rparr>)"
proof -
  have st: "I2S_INT_ST_REG hw \<noteq> 0" using assms(1) by auto
  show ?thesis
  proof (cases "items (dmaQueue s)")
    case Nil
    then show ?thesis using assms st
      by (simp add: i2s_isr_def Let_def xQueueIsQueueFullFromISR_def xQueueSendFromISR_def)
  next
    case (Cons t ts)
    then show ?thesis using assms st
      by (simp add: i2s_isr_def Let_def xQueueIsQueueFullFromISR_def xQueueSendFromISR_def
          xQueueReceiveFromISR_def)
  qed
qed

text \<open>
  C10. When the interrupt status register reads zero the handler returns at once and
  the state is as before: the queue, the underrun counter and the list of values
  written to the interrupt clear register are unchanged. When it reads a value other
  than zero and the handler returns, that list has grown by one write of all ones.
\<close>

theorem i2s_isr_no_pending:
  "(I2S_INT_ST_REG hw = 0 \<longrightarrow> i2s_isr h hw s = Done s) \<and>
   (I2S_INT_ST_REG hw \<noteq> 0 \<longrightarrow> i2s_isr h hw s = Done s' \<longrightarrow>
      I2S_INT_CLR_REG s' = I2S_INT_CLR_REG s @ [0xffffffff])"
proof (intro conjI impI)
  assume "I2S_INT_ST_REG hw = 0"
  then show "i2s_isr h hw s = Done s" by (simp add: i2s_isr_def)
next
  assume "I2S_INT_ST_REG hw \<noteq> 0" "i2s_isr h hw s = Done s'"
  then show "I2S_INT_CLR_REG s' = I2S_INT_CLR_REG s @ [0xffffffff]"
    by (auto simp: i2s_isr_def Let_def split: if_splits ptr.splits)
qed

theorem i2s_isr_no_pending_witness:
  "I2S_INT_ST_REG \<lparr>I2S_INT_ST_REG = 0, I2S_OUT_EOF_DES_ADDR_REG = DescPtr 0\<rparr> = 0 \<and>
   i2s_isr h4 \<lparr>I2S_INT_ST_REG = 0, I2S_OUT_EOF_DES_ADDR_REG = DescPtr 0\<rparr> after_irq = Done after_irq \<and>
   I2S_INT_ST_REG (eof_irq 0) \<noteq> 0 \<and>
   i2s_isr h4 (eof_irq 0) (init_state h4) = Done after_irq \<and>
   I2S_INT_CLR_REG after_irq = I2S_INT_CLR_REG (init_state h4) @ [0xffffffff]"
  using i2s_isr_no_pending [of "\<lparr>I2S_INT_ST_REG = 0, I2S_OUT_EOF_DES_ADDR_REG = DescPtr 0\<rparr>" h4 after_irq]
    i2s_isr_no_pending [of "eof_irq 0" h4 "init_state h4" after_irq] isr_h4_0
  by (simp add: eof_irq_def)

text \<open>
  C2. In every state that a run reaches after initialisation with at least two
  buffers, an interrupt that reports a finished output buffer returns without waiting.
  If the queue, which holds at most one token less than there are buffers, is full,
  then the underrun counter goes up by one (in 32-bit arithmetic), the oldest token
  leaves the queue and the token of the finished buffer is appended. If the queue is
  not full, the counter stays and the token is appended. Apart from the write to the
  interrupt clear register nothing else changes.
\<close>

theorem i2s_isr_completion:
  assumes "0 < I2SDMABUFLEN h" "2 \<le> I2SDMABUFCNT h"
    and "i2sInit h alloc_ok = Done s0" "run h evs s0 = Done s"
    and "I2S_INT_ST_REG hw AND I2S_OUT_EOF_INT_ST h \<noteq> 0"
    and "I2S_OUT_EOF_DES_ADDR_REG hw = DescPtr d" "d < I2SDMABUFCNT h"
  shows "uxLength (dmaQueue s) = I2SDMABUFCNT h - 1 \<and>
     i2s_isr h hw s =
     Done (if length (items (dmaQueue s)) = I2SDMABUFCNT h - 1
           then s\<lparr>I2S_INT_CLR_REG := I2S_INT_CLR_REG s @ [0xffffffff],
                  underrunCnt := s32 (underrunCnt s + 1),
                  dmaQueue := (dmaQueue s)\<lparr>items :=
                    tl (items (dmaQueue s)) @ [buf (i2sBufDesc s ! d)]\<rparr>\<rparr>
           else s\<lparr>I2S_INT_CLR_REG := I2S_INT_CLR_REG s @ [0xffffffff],
                  dmaQueue := (dmaQueue s)\<lparr>items :=
                    items (dmaQueue s) @ [buf (i2sBufDesc s ! d)]\<rparr>\<rparr>) \<and>
     (- 2147483648 \<le> underrunCnt s \<and> underrunCnt s < 2147483647 \<longrightarrow>
        s32 (underrunCnt s + 1) = underrunCnt s + 1)"
proof -
  have "inv h s0" using init_inv(2) [OF assms(1,3)] .
  then have i: "inv h s" using run_inv [OF _ assms(1), of s0 evs] assms(4) by blast
  then have q: "uxLength (dmaQueue s) = I2SDMABUFCNT h - 1"
    "length (items (dmaQueue s)) \<le> uxLength (dmaQueue s)"
    "length (i2sBufDesc s) = I2SDMABUFCNT h"
    by (simp_all add: inv_def)
  have "0 < uxLength (dmaQueue s)" using q(1) assms(2) by simp
  from isr_eof_step [OF assms(5,6) _ this q(2)] assms(7) q
  show ?thesis by (simp add: s32_id)
qed


theorem i2s_isr_completion_witness:
  "0 < I2SDMABUFLEN h4 \<and> 2 \<le> I2SDMABUFCNT h4 \<and>
   i2sInit h4 (\<lambda>y. True) = Done (init_state h4) \<and>
   run h4 [Irq (eof_irq 1), Irq (eof_irq 2), Irq (eof_irq 3)] (init_state h4) = Done queue_full \<and>
   I2S_INT_ST_REG (eof_irq 0) AND I2S_OUT_EOF_INT_ST h4 \<noteq> 0 \<and>
   I2S_OUT_EOF_DES_ADDR_REG (eof_irq 0) = DescPtr 0 \<and> 0 < I2SDMABUFCNT h4 \<and>
   length (items (dmaQueue queue_full)) = I2SDMABUFCNT h4 - 1 \<and>
   i2s_isr h4 (eof_irq 0) queue_full =
     Done (queue_full\<lparr>I2S_INT_CLR_REG := I2S_INT_CLR_REG queue_full @ [0xffffffff],
            underrunCnt := 1,
            dmaQueue := \<lparr>items = [BufPtr 2, BufPtr 3, BufPtr 0], uxLength = 3\<rparr>\<rparr>) \<and>
   run h4 [] (init_state h4) = Done (init_state h4) \<and>
   length (items (dmaQueue (init_state h4))) \<noteq> I2SDMABUFCNT h4 - 1 \<and>
   i2s_isr h4 (eof_irq 0) (init_state h4) =
     Done ((init_state h4)\<lparr>I2S_INT_CLR_REG := I2S_INT_CLR_REG (init_state h4) @ [0xffffffff],
            dmaQueue := \<lparr>items = [BufPtr 0], uxLength = 3\<rparr>\<rparr>)"
proof -
  have h: "0 < I2SDMABUFLEN h4" "2 \<le> I2SDMABUFCNT h4" by (simp_all add: h4_def)
  have e: "I2S_INT_ST_REG (eof_irq 0) AND I2S_OUT_EOF_INT_ST h4 \<noteq> 0"
    "I2S_OUT_EOF_DES_ADDR_REG (eof_irq 0) = DescPtr 0" "0 < I2SDMABUFCNT h4"
    by (simp_all add: eof_irq_def h4_def)
  have r0: "run h4 [] (init_state h4) = Done (init_state h4)" by simp
  note full = i2s_isr_completion [OF h init_h4 run_h4_full e]
  note empty = i2s_isr_completion [OF h init_h4 r0 e]
  have 1: "length (items (dmaQueue queue_full)) = I2SDMABUFCNT h4 - 1"
    by (simp add: queue_full_def h4_def)
  have 2: "length (items (dmaQueue (init_state h4))) \<noteq> I2SDMABUFCNT h4 - 1"
    by (simp add: init_state_def xQueueCreate_def h4_def)
  have "i2s_isr h4 (eof_irq 0) queue_full =
     Done (queue_full\<lparr>I2S_INT_CLR_REG := I2S_INT_CLR_REG queue_full @ [0xffffffff],
            underrunCnt := 1,
            dmaQueue := \<lparr>items = [BufPtr 2, BufPtr 3, BufPtr 0], uxLength = 3\<rparr>\<rparr>)"
    using full 1 by (simp add: queue_full_def init_state_def init_desc_at_def h4_def s32_def)
  moreover have "i2s_isr h4 (eof_irq 0) (init_state h4) =
     Done ((init_state h4)\<lparr>I2S_INT_CLR_REG := I2S_INT_CLR_REG (init_state h4) @ [0xffffffff],
            dmaQueue := \<lparr>items = [BufPtr 0], uxLength = 3\<rparr>\<rparr>)"
    using empty 2 by (simp add: init_state_def init_desc_at_def h4_def xQueueCreate_def)
  ultimately show ?thesis using h init_h4 run_h4_full e 1 2 r0 by blast
qed

text \<open>
  C4. After initialisation every descriptor has its owner and end-of-frame flags set
  to 1, its length and its size equal to four times the buffer length in bytes
  (provided that number fits the bit-fields), its buffer pointer equal to the pointer
  of the sample buffer of the same index, and its link pointing to the descriptor of
  the next index, the last one back to descriptor 0. Following the links from
  descriptor 0 visits the descriptors 0, 1, ... in turn, each once, and then returns
  to descriptor 0. The output link register holds the address of descriptor 0, the
  input link register that of descriptor 1.
\<close>

theorem i2sInit_descriptor_ring:
  assumes "i2sInit h alloc_ok = Done s" "i < I2SDMABUFCNT h"
    and "I2SDMABUFLEN h * 4 < 2 ^ lldesc_len_bits h"
  shows "length (i2sBufDesc s) = I2SDMABUFCNT h \<and>
         owner (i2sBufDesc s ! i) = 1 \<and> eof (i2sBufDesc s ! i) = 1 \<and>
         length_d (i2sBufDesc s ! i) = I2SDMABUFLEN h * 4 \<and>
         size_d (i2sBufDesc s ! i) = I2SDMABUFLEN h * 4 \<and>
         buf (i2sBufDesc s ! i) = i2sBuf s ! i \<and>
         empty_d (i2sBufDesc s ! i) = DescPtr ((i + 1) mod I2SDMABUFCNT h) \<and>
         map (\<lambda>k. follow (i2sBufDesc s) k (DescPtr 0)) [0..<I2SDMABUFCNT h]
           = map DescPtr [0..<I2SDMABUFCNT h] \<and>
         follow (i2sBufDesc s) (I2SDMABUFCNT h) (DescPtr 0) = DescPtr 0 \<and>
         I2S_OUTLINK_ADDR s = DescPtr 0 \<and> I2S_INLINK_ADDR s = DescPtr 1"
proof -
  note d = i2sInit_descs [OF assms(1)]
  have pos: "0 < I2SDMABUFCNT h" using assms(2) by simp
  note f = follow_ring [OF d(1) pos]
  have "map (\<lambda>k. follow (i2sBufDesc s) k (DescPtr 0)) [0..<I2SDMABUFCNT h]
           = map DescPtr [0..<I2SDMABUFCNT h]"
    by (rule map_cong) (simp_all add: f)
  moreover have "follow (i2sBufDesc s) (I2SDMABUFCNT h) (DescPtr 0) = DescPtr 0"
    by (simp add: f)
  ultimately show ?thesis
    using assms(2,3) d(2,3) by (simp add: d(1) init_desc_at_def)
qed

theorem i2sInit_descriptor_ring_witness:
  "i2sInit h4 (\<lambda>y. True) = Done (init_state h4) \<and> (3::nat) < I2SDMABUFCNT h4 \<and>
   I2SDMABUFLEN h4 * 4 < 2 ^ lldesc_len_bits h4 \<and>
   owner (i2sBufDesc (init_state h4) ! 3) = 1 \<and> eof (i2sBufDesc (init_state h4) ! 3) = 1 \<and>
   length_d (i2sBufDesc (init_state h4) ! 3) = 512 \<and>
   size_d (i2sBufDesc (init_state h4) ! 3) = 512 \<and>
   buf (i2sBufDesc (init_state h4) ! 3) = BufPtr 3 \<and>
   empty_d (i2sBufDesc (init_state h4) ! 3) = DescPtr 0 \<and>
   map (\<lambda>k. follow (i2sBufDesc (init_state h4)) k (DescPtr 0)) [0..<4]
     = [DescPtr 0, DescPtr 1, DescPtr 2, DescPtr 3] \<and>
   follow (i2sBufDesc (init_state h4)) 4 (DescPtr 0) = DescPtr 0 \<and>
   I2S_OUTLINK_ADDR (init_state h4) = DescPtr 0 \<and> I2S_INLINK_ADDR (init_state h4) = DescPtr 1"
proof -
  have h: "(3::nat) < I2SDMABUFCNT h4" "I2SDMABUFLEN h4 * 4 < 2 ^ lldesc_len_bits h4"
    by (simp_all add: h4_def)
  have c: "I2SDMABUFCNT h4 = 4" "I2SDMABUFLEN h4 = 128" by (simp_all add: h4_def)
  have u: "[0..<4] = [0, 1, 2, 3]" by (simp add: upt_rec)
  have b: "i2sBuf (init_state h4) ! 3 = BufPtr 3" by (simp add: init_state_def c)
  from i2sInit_descriptor_ring [OF init_h4 h] show ?thesis
    using init_h4 h by (simp add: c u b)
qed




text \<open>
  C8. When initialisation completes (buffers of at least one frame), every sample
  buffer is a block of its own of four bytes for each frame, and every byte of it is
  zero.
\<close>

theorem i2sInit_buffers_zero:
  assumes "i2sInit h alloc_ok = Done s" "0 < I2SDMABUFLEN h" "y < I2SDMABUFCNT h"
    and "b < I2SDMABUFLEN h * 4"
  shows "length (heap s) = I2SDMABUFCNT h \<and> i2sBuf s ! y = BufPtr y \<and>
         buf (i2sBufDesc s ! y) = BufPtr y \<and>
         length (heap s ! y) = I2SDMABUFLEN h * 4 \<and> heap s ! y ! b = 0 \<and>
         heap s ! y = replicate (I2SDMABUFLEN h * 4) 0"
  using init_inv(1) [OF assms(2,1)] assms(3,4)
  by (simp add: init_state_def init_desc_at_def)

theorem i2sInit_buffers_zero_witness:
  "i2sInit h4 (\<lambda>y. True) = Done (init_state h4) \<and> 0 < I2SDMABUFLEN h4 \<and>
   (3::nat) < I2SDMABUFCNT h4 \<and> (511::nat) < I2SDMABUFLEN h4 * 4 \<and>
   length (heap (init_state h4)) = 4 \<and> i2sBuf (init_state h4) ! 3 = BufPtr 3 \<and>
   length (heap (init_state h4) ! 3) = 512 \<and> heap (init_state h4) ! 3 ! 511 = 0"
proof -
  have h: "0 < I2SDMABUFLEN h4" "(3::nat) < I2SDMABUFCNT h4" "(511::nat) < I2SDMABUFLEN h4 * 4"
    by (simp_all add: h4_def)
  have c: "I2SDMABUFCNT h4 = 4" "I2SDMABUFLEN h4 = 128" by (simp_all add: h4_def)
  from i2sInit_buffers_zero [OF init_h4 h] show ?thesis
    using init_h4 h by (simp add: c)
qed

section \<open>The properties of the producer\<close>

lemma push_Done:
  assumes "i2sPushSample h sample s = Done s'"
  shows "\<exists>k. currDMABuff s' = BufPtr k \<and> k < length (heap s) \<and> 0 < currDMABuffPos s' \<and>
      4 * nat (currDMABuffPos s' - 1) + 4 \<le> length (heap s ! k) \<and>
      (if need_buffer h s
       then items (dmaQueue s) \<noteq> [] \<and> BufPtr k = hd (items (dmaQueue s)) \<and>
            dmaQueue s' = (dmaQueue s)\<lparr>items := tl (items (dmaQueue s))\<rparr> \<and>
            currDMABuffPos s' = 1
       else BufPtr k = currDMABuff s \<and> dmaQueue s' = dmaQueue s \<and>
            currDMABuffPos s' = currDMABuffPos s + 1) \<and>
      load32 (heap s') k (nat (currDMABuffPos s' - 1)) = sample \<and>
      length (heap s') = length (heap s) \<and>
      (\<forall>j. length (heap s' ! j) = length (heap s ! j)) \<and>
      (\<forall>j. j \<noteq> k \<longrightarrow> heap s' ! j = heap s ! j) \<and>
      (\<forall>b<length (heap s ! k).
          b < 4 * nat (currDMABuffPos s' - 1) \<or> 4 * nat (currDMABuffPos s' - 1) + 4 \<le> b \<longrightarrow>
          heap s' ! k ! b = heap s ! k ! b) \<and>
      s' = s\<lparr>heap := heap s', dmaQueue := dmaQueue s', currDMABuff := currDMABuff s',
             currDMABuffPos := currDMABuffPos s'\<rparr>"
proof -
  define p where "p = (if need_buffer h s then hd (items (dmaQueue s)) else currDMABuff s)"
  define i where "i = (if need_buffer h s then 0 else currDMABuffPos s)"
  define q where "q = (if need_buffer h s then (dmaQueue s)\<lparr>items := tl (items (dmaQueue s))\<rparr>
                       else dmaQueue s)"
  have ne: "need_buffer h s \<Longrightarrow> items (dmaQueue s) \<noteq> []"
    using assms by (auto simp: i2sPushSample_unfold)
  have "\<exists>hp. store32 (heap s) p i sample = Done hp \<and>
          s' = s\<lparr>dmaQueue := q, currDMABuff := p, heap := hp, currDMABuffPos := i + 1\<rparr>"
    using assms
    by (auto simp: i2sPushSample_unfold p_def i_def q_def rbind_def
        split: if_splits list.splits result.splits)
  then obtain hp where hp: "store32 (heap s) p i sample = Done hp"
    and s': "s' = s\<lparr>dmaQueue := q, currDMABuff := p, heap := hp, currDMABuffPos := i + 1\<rparr>"
    by blast
  obtain k where k: "p = BufPtr k" "k < length (heap s)" "0 \<le> i"
    "4 * nat i + 4 \<le> length (heap s ! k)"
    "hp = (heap s)[k := take (4 * nat i) (heap s ! k) @ le_bytes sample @
                        drop (4 * nat i + 4) (heap s ! k)]"
    using store32_Done [OF hp] by blast
  note blk = store32_block [OF k(2,4), where v = sample, folded k(5)]
  have f: "currDMABuff s' = BufPtr k" "currDMABuffPos s' = i + 1" "heap s' = hp" "dmaQueue s' = q"
    by (simp_all add: s' k(1))
  have n: "nat (currDMABuffPos s' - 1) = nat i" by (simp add: f)
  have 1: "if need_buffer h s
       then items (dmaQueue s) \<noteq> [] \<and> BufPtr k = hd (items (dmaQueue s)) \<and>
            dmaQueue s' = (dmaQueue s)\<lparr>items := tl (items (dmaQueue s))\<rparr> \<and>
            currDMABuffPos s' = 1
       else BufPtr k = currDMABuff s \<and> dmaQueue s' = dmaQueue s \<and>
            currDMABuffPos s' = currDMABuffPos s + 1"
    using ne k(1) by (auto simp: f p_def i_def q_def split: if_splits)
  have 2: "s' = s\<lparr>heap := heap s', dmaQueue := dmaQueue s', currDMABuff := currDMABuff s',
             currDMABuffPos := currDMABuffPos s'\<rparr>"
    by (simp add: s')
  have 3: "\<forall>b<length (heap s ! k).
          b < 4 * nat (currDMABuffPos s' - 1) \<or> 4 * nat (currDMABuffPos s' - 1) + 4 \<le> b \<longrightarrow>
          heap s' ! k ! b = heap s ! k ! b"
    unfolding n f(3) using blk(5) by blast
  have 4: "\<forall>j. length (heap s' ! j) = length (heap s ! j)"
    unfolding f(3) using blk(2) by blast
  have 5: "\<forall>j. j \<noteq> k \<longrightarrow> heap s' ! j = heap s ! j"
    unfolding f(3) using blk(4) by blast
  have 6: "load32 (heap s') k (nat (currDMABuffPos s' - 1)) = sample"
    unfolding n f(3) by (rule blk(3))
  have 7: "4 * nat (currDMABuffPos s' - 1) + 4 \<le> length (heap s ! k)"
    unfolding n by (rule k(4))
  have 8: "0 < currDMABuffPos s'" "length (heap s') = length (heap s)"
    using k(3) blk(1) by (simp_all add: f)
  from f(1) k(2) 1 2 3 4 5 6 7 8 show ?thesis by blast
qed


lemma push_blocked:
  "need_buffer h s \<Longrightarrow> items (dmaQueue s) = [] \<Longrightarrow> i2sPushSample h sample s = Blocked"
  by (simp add: i2sPushSample_unfold)

text \<open>
  C3. A push whose producer holds no buffer, or whose write offset equals the buffer
  length, first takes the oldest token from the queue and waits while the queue is
  empty; the token becomes the current buffer and the offset zero. The frame is then
  stored at the offset and the offset goes up by one. In every state that a run
  reaches after initialisation the push returns unless it has to wait: it returns
  when a buffer with room is held, and when a token is queued. The store changes the
  four bytes of that frame in the current buffer and no other byte of the heap, and
  the push changes nothing but the heap, the queue, the current buffer and the offset.
\<close>

theorem i2sPushSample_effect:
  "(need_buffer h s \<and> items (dmaQueue s) = [] \<longrightarrow> i2sPushSample h sample s = Blocked) \<and>
   (0 < I2SDMABUFLEN h \<and> i2sInit h alloc_ok = Done s0 \<and> run h evs s0 = Done s \<and>
    \<not> (need_buffer h s \<and> items (dmaQueue s) = []) \<longrightarrow>
      (\<exists>s1 k. i2sPushSample h sample s = Done s1 \<and>
         currDMABuff s1 = BufPtr k \<and>
         BufPtr k = (if currDMABuffPos s = int (I2SDMABUFLEN h) \<or> currDMABuff s = NULL
                     then hd (items (dmaQueue s)) else currDMABuff s) \<and>
         currDMABuffPos s1 = (if currDMABuffPos s = int (I2SDMABUFLEN h) \<or> currDMABuff s = NULL
                              then 0 else currDMABuffPos s) + 1 \<and>
         load32 (heap s1) k (nat (currDMABuffPos s1 - 1)) = sample)) \<and>
   (i2sPushSample h sample s = Done s' \<longrightarrow>
     (\<exists>k. currDMABuff s' = BufPtr k \<and> k < length (heap s) \<and>
        (if currDMABuffPos s = int (I2SDMABUFLEN h) \<or> currDMABuff s = NULL
         then items (dmaQueue s) \<noteq> [] \<and> BufPtr k = hd (items (dmaQueue s)) \<and>
              dmaQueue s' = (dmaQueue s)\<lparr>items := tl (items (dmaQueue s))\<rparr> \<and>
              currDMABuffPos s' = 0 + 1
         else BufPtr k = currDMABuff s \<and> dmaQueue s' = dmaQueue s \<and>
              currDMABuffPos s' = currDMABuffPos s + 1) \<and>
        load32 (heap s') k (nat (currDMABuffPos s' - 1)) = sample \<and>
        length (heap s') = length (heap s) \<and>
        (\<forall>j. j \<noteq> k \<longrightarrow> heap s' ! j = heap s ! j) \<and>
        (\<forall>b<length (heap s ! k).
            b < 4 * nat (currDMABuffPos s' - 1) \<or> 4 * nat (currDMABuffPos s' - 1) + 4 \<le> b \<longrightarrow>
            heap s' ! k ! b = heap s ! k ! b) \<and>
        s' = s\<lparr>heap := heap s', dmaQueue := dmaQueue s', currDMABuff := currDMABuff s',
               currDMABuffPos := currDMABuffPos s'\<rparr>))"
proof (intro conjI impI)
  assume "need_buffer h s \<and> items (dmaQueue s) = []"
  then show "i2sPushSample h sample s = Blocked" by (simp add: push_blocked)
next
  assume a: "0 < I2SDMABUFLEN h \<and> i2sInit h alloc_ok = Done s0 \<and> run h evs s0 = Done s \<and>
    \<not> (need_buffer h s \<and> items (dmaQueue s) = [])"
  then have a1: "0 < I2SDMABUFLEN h" and a2: "i2sInit h alloc_ok = Done s0"
    and a3: "run h evs s0 = Done s" and a4: "\<not> (need_buffer h s \<and> items (dmaQueue s) = [])"
    by simp_all
  have i0: "inv h s0" by (rule init_inv(2) [OF a1 a2])
  have i: "inv h s" using run_inv [OF i0 a1, of evs] a3 by blast
  obtain s1 where s1: "i2sPushSample h sample s = Done s1"
    using push_inv [OF i a1, of sample] a4 by blast
  from push_Done [OF s1] obtain k where k: "currDMABuff s1 = BufPtr k"
    "if need_buffer h s
       then items (dmaQueue s) \<noteq> [] \<and> BufPtr k = hd (items (dmaQueue s)) \<and>
            dmaQueue s1 = (dmaQueue s)\<lparr>items := tl (items (dmaQueue s))\<rparr> \<and>
            currDMABuffPos s1 = 1
       else BufPtr k = currDMABuff s \<and> dmaQueue s1 = dmaQueue s \<and>
            currDMABuffPos s1 = currDMABuffPos s + 1"
    "load32 (heap s1) k (nat (currDMABuffPos s1 - 1)) = sample"
    by blast
  have "BufPtr k = (if currDMABuffPos s = int (I2SDMABUFLEN h) \<or> currDMABuff s = NULL
                     then hd (items (dmaQueue s)) else currDMABuff s)"
    and "currDMABuffPos s1 = (if currDMABuffPos s = int (I2SDMABUFLEN h) \<or> currDMABuff s = NULL
                              then 0 else currDMABuffPos s) + 1"
    using k(2) by (auto simp: need_buffer_def split: if_splits)
  with s1 k(1,3) show "\<exists>s1 k. i2sPushSample h sample s = Done s1 \<and>
         currDMABuff s1 = BufPtr k \<and>
         BufPtr k = (if currDMABuffPos s = int (I2SDMABUFLEN h) \<or> currDMABuff s = NULL
                     then hd (items (dmaQueue s)) else currDMABuff s) \<and>
         currDMABuffPos s1 = (if currDMABuffPos s = int (I2SDMABUFLEN h) \<or> currDMABuff s = NULL
                              then 0 else currDMABuffPos s) + 1 \<and>
         load32 (heap s1) k (nat (currDMABuffPos s1 - 1)) = sample"
    by blast
next
  assume "i2sPushSample h sample s = Done s'"
  from push_Done [OF this] obtain k where k: "currDMABuff s' = BufPtr k" "k < length (heap s)"
    "if need_buffer h s
       then items (dmaQueue s) \<noteq> [] \<and> BufPtr k = hd (items (dmaQueue s)) \<and>
            dmaQueue s' = (dmaQueue s)\<lparr>items := tl (items (dmaQueue s))\<rparr> \<and>
            currDMABuffPos s' = 1
       else BufPtr k = currDMABuff s \<and> dmaQueue s' = dmaQueue s \<and>
            currDMABuffPos s' = currDMABuffPos s + 1"
    "load32 (heap s') k (nat (currDMABuffPos s' - 1)) = sample"
    "length (heap s') = length (heap s)"
    "\<forall>j. j \<noteq> k \<longrightarrow> heap s' ! j = heap s ! j"
    "\<forall>b<length (heap s ! k).
          b < 4 * nat (currDMABuffPos s' - 1) \<or> 4 * nat (currDMABuffPos s' - 1) + 4 \<le> b \<longrightarrow>
          heap s' ! k ! b = heap s ! k ! b"
    "s' = s\<lparr>heap := heap s', dmaQueue := dmaQueue s', currDMABuff := currDMABuff s',
             currDMABuffPos := currDMABuffPos s'\<rparr>"
    by blast
  have "if currDMABuffPos s = int (I2SDMABUFLEN h) \<or> currDMABuff s = NULL
         then items (dmaQueue s) \<noteq> [] \<and> BufPtr k = hd (items (dmaQueue s)) \<and>
              dmaQueue s' = (dmaQueue s)\<lparr>items := tl (items (dmaQueue s))\<rparr> \<and>
              currDMABuffPos s' = 0 + 1
         else BufPtr k = currDMABuff s \<and> dmaQueue s' = dmaQueue s \<and>
              currDMABuffPos s' = currDMABuffPos s + 1"
    using k(3) by (simp add: need_buffer_def)
  with k(1,2,4-8) show "\<exists>k. currDMABuff s' = BufPtr k \<and> k < length (heap s) \<and>
        (if currDMABuffPos s = int (I2SDMABUFLEN h) \<or> currDMABuff s = NULL
         then items (dmaQueue s) \<noteq> [] \<and> BufPtr k = hd (items (dmaQueue s)) \<and>
              dmaQueue s' = (dmaQueue s)\<lparr>items := tl (items (dmaQueue s))\<rparr> \<and>
              currDMABuffPos s' = 0 + 1
         else BufPtr k = currDMABuff s \<and> dmaQueue s' = dmaQueue s \<and>
              currDMABuffPos s' = currDMABuffPos s + 1) \<and>
        load32 (heap s') k (nat (currDMABuffPos s' - 1)) = sample \<and>
        length (heap s') = length (heap s) \<and>
        (\<forall>j. j \<noteq> k \<longrightarrow> heap s' ! j = heap s ! j) \<and>
        (\<forall>b<length (heap s ! k).
            b < 4 * nat (currDMABuffPos s' - 1) \<or> 4 * nat (currDMABuffPos s' - 1) + 4 \<le> b \<longrightarrow>
            heap s' ! k ! b = heap s ! k ! b) \<and>
        s' = s\<lparr>heap := heap s', dmaQueue := dmaQueue s', currDMABuff := currDMABuff s',
               currDMABuffPos := currDMABuffPos s'\<rparr>"
    by blast
qed

theorem i2sPushSample_effect_witness:
  "need_buffer h4 (init_state h4) \<and> items (dmaQueue (init_state h4)) = [] \<and>
   i2sPushSample h4 7 (init_state h4) = Blocked \<and>
   0 < I2SDMABUFLEN h4 \<and> i2sInit h4 (\<lambda>y. True) = Done (init_state h4) \<and>
   run h4 [Irq (eof_irq 0)] (init_state h4) = Done after_irq \<and>
   currDMABuff after_irq = NULL \<and> items (dmaQueue after_irq) = [BufPtr 0] \<and>
   i2sPushSample h4 7 after_irq = Done after_push \<and>
   currDMABuff after_push = BufPtr 0 \<and> currDMABuffPos after_push = 1 \<and>
   items (dmaQueue after_push) = [] \<and> load32 (heap after_push) 0 0 = 7 \<and>
   run h4 [Irq (eof_irq 0), Push 7] (init_state h4) = Done after_push \<and>
   \<not> need_buffer h4 after_push \<and>
   i2sPushSample h4 9 after_push = Done after_push2 \<and>
   currDMABuff after_push2 = BufPtr 0 \<and> currDMABuffPos after_push2 = 2 \<and>
   load32 (heap after_push2) 0 1 = 9 \<and> load32 (heap after_push2) 0 0 = 7"
proof -
  have h: "0 < I2SDMABUFLEN h4" by (simp add: h4_def)
  have b: "need_buffer h4 (init_state h4)" "items (dmaQueue (init_state h4)) = []"
    by (simp_all add: need_buffer_def init_state_def xQueueCreate_def)
  have f: "currDMABuff after_irq = NULL" "items (dmaQueue after_irq) = [BufPtr 0]"
    "currDMABuff after_push = BufPtr 0" "currDMABuffPos after_push = 1"
    "items (dmaQueue after_push) = []"
    "currDMABuff after_push2 = BufPtr 0" "currDMABuffPos after_push2 = 2"
    by (simp_all add: after_push2_def after_push_def after_irq_def init_state_def)
  have n: "\<not> need_buffer h4 after_push"
    by (simp add: need_buffer_def f h4_def)
  from i2sPushSample_effect [of h4 "init_state h4" 7] b
  have 1: "i2sPushSample h4 7 (init_state h4) = Blocked" by blast
  from i2sPushSample_effect [of h4 after_irq 7 "\<lambda>y. True" "init_state h4" "[Irq (eof_irq 0)]" after_push]
    push_h4
  have "\<exists>k. currDMABuff after_push = BufPtr k \<and>
          load32 (heap after_push) k (nat (currDMABuffPos after_push - 1)) = 7"
    by blast
  then have 2: "load32 (heap after_push) 0 0 = 7" by (simp add: f)
  from i2sPushSample_effect [of h4 after_push 9 "\<lambda>y. True" "init_state h4"
      "[Irq (eof_irq 0), Push 7]" after_push2] h init_h4 run_h4_push n
  have "\<exists>s1 k. i2sPushSample h4 9 after_push = Done s1 \<and> currDMABuff s1 = BufPtr k \<and>
          load32 (heap s1) k (nat (currDMABuffPos s1 - 1)) = 9"
    by blast
  then have 3: "load32 (heap after_push2) 0 1 = 9" by (simp add: push_h4_2 f)
  have 4: "load32 (heap after_push2) 0 0 = 7"
    by (simp add: load32_def after_push2_def after_push_def after_irq_def init_state_def
        h4_def le_word_bytes)
  from h b 1 init_h4 run_h4_irq f push_h4 2 run_h4_push n push_h4_2 3 4 show ?thesis by blast
qed

text \<open>
  C9. From the state that initialisation returns (buffers of at least one frame), no
  sequence of pushes and interrupts ends in a store outside a sample buffer or through
  a null pointer. In every state that such a sequence reaches the write offset is
  between zero and the buffer length, a further push does not fail, and when it
  returns it has stored its frame in a whole sample buffer at an index below the
  buffer length.
\<close>

theorem i2sPushSample_in_bounds:
  assumes "0 < I2SDMABUFLEN h" "i2sInit h alloc_ok = Done s0"
  shows "run h evs s0 \<noteq> Fault NullStore \<and> run h evs s0 \<noteq> Fault OutOfBounds \<and>
     (run h evs s0 = Done s \<longrightarrow>
        0 \<le> currDMABuffPos s \<and> currDMABuffPos s \<le> int (I2SDMABUFLEN h) \<and>
        (\<forall>f. i2sPushSample h sample s \<noteq> Fault f) \<and>
        (i2sPushSample h sample s = Done s' \<longrightarrow>
           (\<exists>k. currDMABuff s' = BufPtr k \<and> k < length (heap s') \<and>
                length (heap s' ! k) = 4 * I2SDMABUFLEN h \<and>
                0 \<le> currDMABuffPos s' - 1 \<and> currDMABuffPos s' - 1 < int (I2SDMABUFLEN h) \<and>
                load32 (heap s') k (nat (currDMABuffPos s' - 1)) = sample)))"
proof -
  have i0: "inv h s0" by (rule init_inv(2) [OF assms])
  note r = run_inv [OF i0 assms(1), of evs]
  have "0 \<le> currDMABuffPos s \<and> currDMABuffPos s \<le> int (I2SDMABUFLEN h) \<and>
        (\<forall>f. i2sPushSample h sample s \<noteq> Fault f) \<and>
        (i2sPushSample h sample s = Done s' \<longrightarrow>
           (\<exists>k. currDMABuff s' = BufPtr k \<and> k < length (heap s') \<and>
                length (heap s' ! k) = 4 * I2SDMABUFLEN h \<and>
                0 \<le> currDMABuffPos s' - 1 \<and> currDMABuffPos s' - 1 < int (I2SDMABUFLEN h) \<and>
                load32 (heap s') k (nat (currDMABuffPos s' - 1)) = sample))"
    if d: "run h evs s0 = Done s"
  proof -
    have i: "inv h s" using r d by blast
    note p = push_inv [OF i assms(1), of sample]
    have nf: "\<forall>f. i2sPushSample h sample s \<noteq> Fault f" using p by auto
    have w: "\<exists>k. currDMABuff s' = BufPtr k \<and> k < length (heap s') \<and>
                length (heap s' ! k) = 4 * I2SDMABUFLEN h \<and>
                0 \<le> currDMABuffPos s' - 1 \<and> currDMABuffPos s' - 1 < int (I2SDMABUFLEN h) \<and>
                load32 (heap s') k (nat (currDMABuffPos s' - 1)) = sample"
      if e: "i2sPushSample h sample s = Done s'"
    proof -
      have "inv h s'" "1 \<le> currDMABuffPos s'" "valid_buf h (heap s') (currDMABuff s')"
        using p e by auto
      moreover obtain k where "currDMABuff s' = BufPtr k"
        "load32 (heap s') k (nat (currDMABuffPos s' - 1)) = sample"
        using push_Done [OF e] by blast
      ultimately show ?thesis by (auto simp: inv_def valid_buf_def)
    qed
    from i nf w show ?thesis by (simp add: inv_def)
  qed
  with r show ?thesis by blast
qed

theorem i2sPushSample_in_bounds_witness:
  "0 < I2SDMABUFLEN h4 \<and> i2sInit h4 (\<lambda>y. True) = Done (init_state h4) \<and>
   run h4 [Irq (eof_irq 0)] (init_state h4) = Done after_irq \<and>
   i2sPushSample h4 7 after_irq = Done after_push \<and>
   0 \<le> currDMABuffPos after_irq \<and> currDMABuffPos after_irq \<le> int (I2SDMABUFLEN h4) \<and>
   currDMABuff after_push = BufPtr 0 \<and> length (heap after_push ! 0) = 4 * I2SDMABUFLEN h4 \<and>
   0 \<le> currDMABuffPos after_push - 1 \<and> currDMABuffPos after_push - 1 < int (I2SDMABUFLEN h4) \<and>
   load32 (heap after_push) 0 (nat (currDMABuffPos after_push - 1)) = 7"
proof -
  have h: "0 < I2SDMABUFLEN h4" by (simp add: h4_def)
  have f: "currDMABuff after_push = BufPtr 0"
    by (simp add: after_push_def)
  from i2sPushSample_in_bounds [OF h init_h4, of "[Irq (eof_irq 0)]" after_irq 7 after_push]
    run_h4_irq push_h4
  have 1: "0 \<le> currDMABuffPos after_irq \<and> currDMABuffPos after_irq \<le> int (I2SDMABUFLEN h4)"
    and "\<exists>k. currDMABuff after_push = BufPtr k \<and> k < length (heap after_push) \<and>
                length (heap after_push ! k) = 4 * I2SDMABUFLEN h4 \<and>
                0 \<le> currDMABuffPos after_push - 1 \<and>
                currDMABuffPos after_push - 1 < int (I2SDMABUFLEN h4) \<and>
                load32 (heap after_push) k (nat (currDMABuffPos after_push - 1)) = 7"
    by blast+
  then have 2: "length (heap after_push ! 0) = 4 * I2SDMABUFLEN h4 \<and>
     0 \<le> currDMABuffPos after_push - 1 \<and> currDMABuffPos after_push - 1 < int (I2SDMABUFLEN h4) \<and>
     load32 (heap after_push) 0 (nat (currDMABuffPos after_push - 1)) = 7"
    by (simp add: f)
  from h init_h4 run_h4_irq push_h4 1 f 2 show ?thesis by blast
qed

lemma pushes_130:
  assumes "I2SDMABUFLEN h = 128" "inv h s" "currDMABuff s = NULL" "length samples = 130"
  shows "2 \<le> length (items (dmaQueue s)) \<Longrightarrow>
           map_option currDMABuffPos (final (i2sPushSamples h samples s)) = Some 2 \<and>
           map_option (dequeues s) (final (i2sPushSamples h samples s)) = Some 2 \<and>
           map_option (items \<circ> dmaQueue) (final (i2sPushSamples h samples s))
             = Some (drop 2 (items (dmaQueue s)))"
    and "length (items (dmaQueue s)) < 2 \<Longrightarrow> i2sPushSamples h samples s = Blocked"
proof -
  have l: "2 \<le> I2SDMABUFLEN h" "length samples = I2SDMABUFLEN h + 2"
    using assms(1,4) by simp_all
  have n: "need_buffer h s" using assms(3) by (simp add: need_buffer_def)
  note ob = pushes_over_boundary [OF l(1) assms(2) n l(2)]
  show "i2sPushSamples h samples s = Blocked" if "length (items (dmaQueue s)) < 2"
    using ob(1) that by blast
  show "map_option currDMABuffPos (final (i2sPushSamples h samples s)) = Some 2 \<and>
        map_option (dequeues s) (final (i2sPushSamples h samples s)) = Some 2 \<and>
        map_option (items \<circ> dmaQueue) (final (i2sPushSamples h samples s))
          = Some (drop 2 (items (dmaQueue s)))"
    if two: "2 \<le> length (items (dmaQueue s))"
  proof -
    obtain s' where s': "i2sPushSamples h samples s = Done s'" "currDMABuffPos s' = 2"
      "dmaQueue s' = (dmaQueue s)\<lparr>items := drop 2 (items (dmaQueue s))\<rparr>"
      using ob(2) [OF two] by blast
    then show ?thesis using two by (simp add: final_def dequeues_def)
  qed
qed

text \<open>
  C5, as the specification states it, fails: after initialisation with four buffers
  of 128 frames and two completion interrupts, 130 pushes by a producer that holds no
  buffer take two tokens from the queue, not one, and leave the offset at 2.
\<close>

theorem push_130_counterexample:
  "i2sInit h4 (\<lambda>y. True) = Done (init_state h4) \<and>
   run h4 [Irq (eof_irq 0), Irq (eof_irq 1)] (init_state h4) = Done after_two_irqs \<and>
   currDMABuff after_two_irqs = NULL \<and> currDMABuffPos after_two_irqs = 0 \<and>
   length (replicate 130 (0::u32)) = 130 \<and>
   map_option (dequeues after_two_irqs)
     (final (i2sPushSamples h4 (replicate 130 0) after_two_irqs)) = Some 2 \<and>
   map_option (dequeues after_two_irqs)
     (final (i2sPushSamples h4 (replicate 130 0) after_two_irqs)) \<noteq> Some 1 \<and>
   map_option currDMABuffPos
     (final (i2sPushSamples h4 (replicate 130 0) after_two_irqs)) = Some 2"
proof -
  have i0: "inv h4 (init_state h4)" by (rule inv_init_state)
  have h: "0 < I2SDMABUFLEN h4" "I2SDMABUFLEN h4 = 128" by (simp_all add: h4_def)
  have i: "inv h4 after_two_irqs"
    using run_inv [OF i0 h(1), of "[Irq (eof_irq 0), Irq (eof_irq 1)]"] run_h4_two_irqs by blast
  have f: "currDMABuff after_two_irqs = NULL" "currDMABuffPos after_two_irqs = 0"
    "2 \<le> length (items (dmaQueue after_two_irqs))"
    by (simp_all add: after_two_irqs_def init_state_def)
  have len: "length (replicate 130 (0::u32)) = 130" by simp
  note r = pushes_130(1) [OF h(2) i f(1) len f(3)]
  then have "map_option (dequeues after_two_irqs)
     (final (i2sPushSamples h4 (replicate 130 0) after_two_irqs)) = Some 2" by blast
  then have ne: "map_option (dequeues after_two_irqs)
     (final (i2sPushSamples h4 (replicate 130 0) after_two_irqs)) \<noteq> Some 1"
    by auto
  from r ne init_h4 run_h4_two_irqs f(1,2) len show ?thesis by blast
qed

text \<open>
  C5, amended. In a state reached after initialisation with four buffers of 128
  frames in which the producer holds no buffer and its offset is 0, a sequence of 130
  pushes takes exactly two tokens from the queue, the first at the first push and the
  second at the 129th, and leaves the write offset at 2. With fewer than two tokens in
  the queue the sequence waits.
\<close>

theorem push_130_two_dequeues:
  assumes "I2SDMABUFCNT h = 4" "I2SDMABUFLEN h = 128"
    and "i2sInit h alloc_ok = Done s0" "run h evs s0 = Done s"
    and "currDMABuff s = NULL" "currDMABuffPos s = 0" "length samples = 130"
  shows "(2 \<le> length (items (dmaQueue s)) \<longrightarrow>
            map_option currDMABuffPos (final (i2sPushSamples h samples s)) = Some 2 \<and>
            map_option (dequeues s) (final (i2sPushSamples h samples s)) = Some 2 \<and>
            map_option (items \<circ> dmaQueue) (final (i2sPushSamples h samples s))
              = Some (drop 2 (items (dmaQueue s)))) \<and>
         (length (items (dmaQueue s)) < 2 \<longrightarrow> i2sPushSamples h samples s = Blocked)"
proof -
  have p: "0 < I2SDMABUFLEN h" using assms(2) by simp
  have "inv h s0" by (rule init_inv(2) [OF p assms(3)])
  then have i: "inv h s" using run_inv [OF _ p, of s0 evs] assms(4) by blast
  from pushes_130 [OF assms(2) i assms(5,7)] show ?thesis by blast
qed

theorem push_130_two_dequeues_witness:
  "I2SDMABUFCNT h4 = 4 \<and> I2SDMABUFLEN h4 = 128 \<and>
   i2sInit h4 (\<lambda>y. True) = Done (init_state h4) \<and>
   run h4 [Irq (eof_irq 0), Irq (eof_irq 1)] (init_state h4) = Done after_two_irqs \<and>
   currDMABuff after_two_irqs = NULL \<and> currDMABuffPos after_two_irqs = 0 \<and>
   length (replicate 130 (7::u32)) = 130 \<and>
   2 \<le> length (items (dmaQueue after_two_irqs)) \<and>
   map_option currDMABuffPos
     (final (i2sPushSamples h4 (replicate 130 7) after_two_irqs)) = Some 2 \<and>
   map_option (dequeues after_two_irqs)
     (final (i2sPushSamples h4 (replicate 130 7) after_two_irqs)) = Some 2 \<and>
   map_option (items \<circ> dmaQueue)
     (final (i2sPushSamples h4 (replicate 130 7) after_two_irqs)) = Some [] \<and>
   run h4 [Irq (eof_irq 0)] (init_state h4) = Done after_irq \<and>
   currDMABuff after_irq = NULL \<and> currDMABuffPos after_irq = 0 \<and>
   length (items (dmaQueue after_irq)) < 2 \<and>
   i2sPushSamples h4 (replicate 130 7) after_irq = Blocked"
proof -
  have h: "I2SDMABUFCNT h4 = 4" "I2SDMABUFLEN h4 = 128" by (simp_all add: h4_def)
  have f: "currDMABuff after_two_irqs = NULL" "currDMABuffPos after_two_irqs = 0"
    by (simp_all add: after_two_irqs_def init_state_def)
  have g: "currDMABuff after_irq = NULL" "currDMABuffPos after_irq = 0"
    by (simp_all add: after_irq_def init_state_def)
  have len: "length (replicate 130 (7::u32)) = 130" by simp
  have q2: "2 \<le> length (items (dmaQueue after_two_irqs))"
    "drop 2 (items (dmaQueue after_two_irqs)) = []"
    by (simp_all add: after_two_irqs_def)
  have q1: "length (items (dmaQueue after_irq)) < 2" by (simp add: after_irq_def)
  note a = push_130_two_dequeues [OF h init_h4 run_h4_two_irqs f len]
  note b = push_130_two_dequeues [OF h init_h4 run_h4_irq g len]
  from a q2 have 1: "map_option currDMABuffPos
       (final (i2sPushSamples h4 (replicate 130 7) after_two_irqs)) = Some 2 \<and>
     map_option (dequeues after_two_irqs)
       (final (i2sPushSamples h4 (replicate 130 7) after_two_irqs)) = Some 2 \<and>
     map_option (items \<circ> dmaQueue)
       (final (i2sPushSamples h4 (replicate 130 7) after_two_irqs)) = Some []"
    by simp
  from b q1 have 2: "i2sPushSamples h4 (replicate 130 7) after_irq = Blocked" by blast
  from h init_h4 run_h4_two_irqs f len q2(1) 1 run_h4_irq g q1 2 show ?thesis by blast
qed

end
